theory Spec2Isabelle
  imports Main
begin

section \<open>Values\<close>

text \<open>
  The argument list of the executor holds either values supplied by a caller of the
  wrapped function or the module-private symbol \<open>NEVER_VALUE\<close> (lock.ts line 20), which
  is not exported and is passed only by \<open>endLock\<close> (line 116).
\<close>

datatype 'a arg = NEVER_VALUE | Arg 'a

text \<open>
  Modelled from the spec: the imported helper \<open>first\<close> (\<open>../math/first\<close>), "a first
  element accessor over an argument list". The empty list has no first element.
\<close>

definition first :: "'v list \<Rightarrow> 'v option" where
  "first arr = (case arr of [] \<Rightarrow> None | x # _ \<Rightarrow> Some x)"

section \<open>The serialized queue\<close>

text \<open>
  A call made through the queue settles with the value its wrapped function returned or
  with the cancellation marker \<open>CANCELED_SYMBOL\<close> (types.d.ts line 144).
\<close>

datatype 'x settlement = Settled 'x | CANCELED_SYMBOL

text \<open>
  Modelled from the spec: the state behind \<open>queued(promise)\<close> (\<open>./queued\<close>, declared in
  types.d.ts lines 178-191): a FIFO of pending entries and the entry in flight. Calls are
  numbered in submission order by \<open>nextId\<close>. \<open>started\<close> lists the entries whose wrapped
  function has been invoked and \<open>settled\<close> the entries whose promise has settled, both
  in the order in which that happened. \<open>discarded\<close> says that \<open>cancel()\<close> has
  discarded the delivery of the result of the entry in flight.
\<close>

record ('p, 'x) queue =
  nextId :: nat
  pending :: "(nat \<times> 'p) list"
  inflight :: "(nat \<times> 'p) option"
  discarded :: bool
  started :: "nat list"
  settled :: "(nat \<times> 'p \<times> 'x settlement) list"

text \<open>Modelled from the spec: the queue that \<open>queued(promise)\<close> returns, with nothing
  pending and nothing in flight.\<close>

definition queued :: "('p, 'x) queue" where
  "queued = \<lparr>nextId = 0, pending = [], inflight = None, discarded = False,
             started = [], settled = []\<rparr>"

text \<open>Modelled from the spec: "queue empty and nothing running".\<close>

definition q_idle :: "('p, 'x) queue \<Rightarrow> bool" where
  "q_idle q = (case inflight q of Some e \<Rightarrow> False
               | None \<Rightarrow> (case pending q of [] \<Rightarrow> True | e # es \<Rightarrow> False))"

text \<open>Modelled from the spec: a call of the function returned by \<open>queued\<close>: "a call
  either starts immediately (queue empty and nothing running) or appends and waits its
  turn".\<close>

definition q_call :: "'p \<Rightarrow> ('p, 'x) queue \<Rightarrow> ('p, 'x) queue" where
  "q_call args q =
     (let e = (nextId q, args); q1 = q\<lparr>nextId := Suc (nextId q)\<rparr>
      in if q_idle q then q1\<lparr>inflight := Some e, started := started q @ [fst e]\<rparr>
         else q1\<lparr>pending := pending q @ [e]\<rparr>)"

text \<open>Modelled from the spec: the wrapped function of the entry in flight has returned
  \<open>x\<close>: the entry's promise settles (with the marker when \<open>cancel()\<close> discarded the
  delivery), and "on completion of the running call, the next queued entry starts".\<close>

definition q_finish :: "'x \<Rightarrow> ('p, 'x) queue \<Rightarrow> ('p, 'x) queue" where
  "q_finish x q =
     (case inflight q of
        None \<Rightarrow> q
      | Some (i, args) \<Rightarrow>
          (let q1 = q\<lparr>settled := settled q @
                         [(i, args, if discarded q then CANCELED_SYMBOL else Settled x)],
                       discarded := False\<rparr>
           in case pending q of
                [] \<Rightarrow> q1\<lparr>inflight := None\<rparr>
              | e # es \<Rightarrow> q1\<lparr>inflight := Some e, pending := es,
                              started := started q @ [fst e]\<rparr>))"

text \<open>Modelled from the spec: \<open>clear()\<close> of the queue "drains not-yet-started entries,
  resolving each with a dedicated cancellation marker value instead of invoking the
  wrapped function"; "the in-flight call, if any, still completes".\<close>

definition q_clear :: "('p, 'x) queue \<Rightarrow> ('p, 'x) queue" where
  "q_clear q =
     q\<lparr>pending := [],
       settled := settled q @ map (\<lambda>(i, args). (i, args, CANCELED_SYMBOL)) (pending q)\<rparr>"

text \<open>Modelled from the spec: \<open>cancel()\<close> of the queue "performs \<open>clear()\<close> and
  additionally discards in-flight result delivery".\<close>

definition q_cancel :: "('p, 'x) queue \<Rightarrow> ('p, 'x) queue" where
  "q_cancel q =
     (let q1 = q_clear q
      in q1\<lparr>discarded := (case inflight q1 of None \<Rightarrow> False | Some e \<Rightarrow> True)\<rparr>)"

section \<open>The behavior subject\<close>

text \<open>
  Modelled from the spec: the class \<open>BehaviorSubject\<close> (\<open>../rx/BehaviorSubject\<close>,
  declared in types.d.ts lines 887-907): "a Subject plus a current-value cell, seeded at
  construction". \<open>ident\<close> tells one object from another. A listener is the handler of
  the unlock wait of one call and is named by the number of that call.
\<close>

record BehaviorSubject =
  ident :: nat
  data :: int
  listeners :: "nat list"

text \<open>Modelled from the spec: the constructor \<open>new BehaviorSubject(v)\<close>; a new object
  has no listener.\<close>

definition new_BehaviorSubject :: "nat \<Rightarrow> int \<Rightarrow> BehaviorSubject" where
  "new_BehaviorSubject k v = \<lparr>ident = k, data = v, listeners = []\<rparr>"

text \<open>Modelled from the spec: \<open>once(callback)\<close> registers the callback after the
  listeners already there; it is deregistered when it is invoked (see \<open>notify\<close>).\<close>

definition once :: "nat \<Rightarrow> BehaviorSubject \<Rightarrow> BehaviorSubject" where
  "once h b = b\<lparr>listeners := listeners b @ [h]\<rparr>"

text \<open>Modelled from the spec: \<open>next(v)\<close> "updates the cell before notifying" and
  "notifies current subscribers asynchronously, in subscription order", over "a snapshot
  of the listener list taken at call time". The result is the updated object and the
  emission it starts: the object's \<open>ident\<close> with the listeners still to be notified.\<close>

definition subject_next ::
  "int \<Rightarrow> BehaviorSubject \<Rightarrow> BehaviorSubject \<times> (nat \<times> nat list) list" where
  "subject_next v b =
     (b\<lparr>data := v\<rparr>,
      case listeners b of [] \<Rightarrow> [] | h # hs \<Rightarrow> [(ident b, listeners b)])"

section \<open>The lock\<close>

text \<open>
  The state of one \<open>lock(promise)\<close> (lock.ts lines 28-120): the variables \<open>lockCount\<close>
  and \<open>lockSubject\<close> (lines 30-31), the queue behind \<open>executeFn\<close> (line 55) and the
  emissions of \<open>lockSubject.next\<close> that are still notifying. The executor of the entry
  in flight is in one of three phases: \<open>Waiting\<close> for the promise of \<open>waitForUnlock()\<close>
  (line 56), \<open>Unlocked\<close> when that promise is resolved and the executor has not yet been
  resumed, and \<open>InBody\<close> when it awaits \<open>promise(...args)\<close> (line 60). \<open>bodies\<close>
  lists the calls for which \<open>promise(...args)\<close> has been invoked, in that order.

  The counter is a JavaScript number; it is modelled as an unbounded integer.
\<close>

datatype phase = Waiting | Unlocked | InBody

record ('a, 'r) lock_state =
  lockCount :: int
  lockSubject :: BehaviorSubject
  emissions :: "(nat \<times> nat list) list"
  executeFn :: "('a arg list, 'r option) queue"
  phase :: phase
  bodies :: "nat list"

text \<open>Lines 30-31 and 55: the state when \<open>lock(promise)\<close> returns.\<close>

definition lock :: "('a, 'r) lock_state" where
  "lock = \<lparr>lockCount = 0, lockSubject = new_BehaviorSubject 0 0, emissions = [],
           executeFn = queued, phase = Waiting, bodies = []\<rparr>"

text \<open>Line 40: \<open>resolve()\<close> of the unlock wait of call \<open>h\<close>. Resolving a promise that
  is already resolved does nothing.\<close>

definition resolve :: "nat \<Rightarrow> ('a, 'r) lock_state \<Rightarrow> ('a, 'r) lock_state" where
  "resolve h s =
     (case inflight (executeFn s) of
        None \<Rightarrow> s
      | Some (i, args) \<Rightarrow> if i = h \<and> phase s = Waiting then s\<lparr>phase := Unlocked\<rparr> else s)"

text \<open>Lines 38-44: \<open>handler\<close> of the unlock wait of call \<open>h\<close>. It reads the variable
  \<open>lockSubject\<close> when it runs.\<close>

definition handler :: "nat \<Rightarrow> ('a, 'r) lock_state \<Rightarrow> ('a, 'r) lock_state" where
  "handler h s =
     (if data (lockSubject s) = 0 then resolve h s
      else s\<lparr>lockSubject := once h (lockSubject s)\<rparr>)"

text \<open>Lines 37-46 and 56: the executor of the entry that has just come in flight calls
  \<open>waitForUnlock()\<close>, which creates the promise and calls \<open>handler()\<close> at once.\<close>

definition waitForUnlock :: "('a, 'r) lock_state \<Rightarrow> ('a, 'r) lock_state" where
  "waitForUnlock s =
     (case inflight (executeFn s) of
        None \<Rightarrow> s
      | Some (i, args) \<Rightarrow> handler i (s\<lparr>phase := Waiting\<rparr>))"

text \<open>A call \<open>executeFn(...args)\<close> (lines 69 and 116): the queue takes the entry, and
  when it starts at once its executor runs up to its first \<open>await\<close>.\<close>

definition call_executeFn ::
  "'a arg list \<Rightarrow> ('a, 'r) lock_state \<Rightarrow> ('a, 'r) lock_state" where
  "call_executeFn args s =
     (let q = executeFn s; s1 = s\<lparr>executeFn := q_call args q\<rparr>
      in if q_idle q then waitForUnlock s1 else s1)"

text \<open>The executor of the entry in flight returns \<open>x\<close> (lines 58 and 60): the queue
  settles the entry, and the executor of the entry it starts next runs up to its first
  \<open>await\<close>.\<close>

definition finish_executeFn ::
  "'r option \<Rightarrow> ('a, 'r) lock_state \<Rightarrow> ('a, 'r) lock_state" where
  "finish_executeFn x s =
     (let q = executeFn s; s1 = s\<lparr>executeFn := q_finish x q\<rparr>
      in case pending q of [] \<Rightarrow> s1 | e # es \<Rightarrow> waitForUnlock s1)"

text \<open>\<open>lockSubject.next(v)\<close> (lines 78, 104, 115).\<close>

definition lockSubject_next :: "int \<Rightarrow> ('a, 'r) lock_state \<Rightarrow> ('a, 'r) lock_state" where
  "lockSubject_next v s =
     (case subject_next v (lockSubject s) of
        (b, es) \<Rightarrow> s\<lparr>lockSubject := b, emissions := emissions s @ es\<rparr>)"

text \<open>Lines 68-70: \<open>wrappedFn(...args)\<close>, called from outside with the caller's values.\<close>

definition wrappedFn :: "'a list \<Rightarrow> ('a, 'r) lock_state \<Rightarrow> ('a, 'r) lock_state" where
  "wrappedFn args s = call_executeFn (map Arg args) s"

text \<open>Lines 77-82: \<open>wrappedFn.clear\<close>.\<close>

definition clear :: "('a, 'r) lock_state \<Rightarrow> ('a, 'r) lock_state" where
  "clear s =
     (let s1 = lockSubject_next 0 s;
          s2 = s1\<lparr>lockCount := 0\<rparr>;
          s3 = s2\<lparr>lockSubject :=
                     new_BehaviorSubject (Suc (ident (lockSubject s2))) (lockCount s2)\<rparr>
      in s3\<lparr>executeFn := q_clear (executeFn s3)\<rparr>)"

text \<open>Lines 91-94: \<open>wrappedFn.cancel\<close>.\<close>

definition cancel :: "('a, 'r) lock_state \<Rightarrow> ('a, 'r) lock_state" where
  "cancel s = (let s1 = clear s in s1\<lparr>executeFn := q_cancel (executeFn s1)\<rparr>)"

text \<open>Lines 102-105: \<open>wrappedFn.beginLock\<close>.\<close>

definition beginLock :: "('a, 'r) lock_state \<Rightarrow> ('a, 'r) lock_state" where
  "beginLock s =
     (let s1 = s\<lparr>lockCount := lockCount s + 1\<rparr> in lockSubject_next (lockCount s1) s1)"

text \<open>Lines 113-117: \<open>wrappedFn.endLock\<close>, up to its \<open>await\<close>. Its promise resolves
  when the promise of the entry it submits settles.\<close>

definition endLock :: "('a, 'r) lock_state \<Rightarrow> ('a, 'r) lock_state" where
  "endLock s =
     (let s1 = s\<lparr>lockCount := max (lockCount s - 1) 0\<rparr>;
          s2 = lockSubject_next (lockCount s1) s1
      in call_executeFn [NEVER_VALUE] s2)"

text \<open>
  Modelled from the spec: one notification of an emission of \<open>Subject.next\<close>. The
  emission number \<open>k\<close> notifies its next listener \<open>h\<close>: the \<open>once\<close> registration of
  \<open>h\<close> is removed from the object that emits, if it is still the current one, and the
  handler of \<open>h\<close> (lock.ts lines 38-44) runs.
\<close>

definition notify :: "nat \<Rightarrow> ('a, 'r) lock_state \<Rightarrow> ('a, 'r) lock_state option" where
  "notify k s =
     (if k < length (emissions s) then
        (case emissions s ! k of
           (b, []) \<Rightarrow>
             Some (s\<lparr>emissions := take k (emissions s) @ drop (Suc k) (emissions s)\<rparr>)
         | (b, h # hs) \<Rightarrow>
             (let ems = (case hs of
                           [] \<Rightarrow> take k (emissions s) @ drop (Suc k) (emissions s)
                         | h' # hs' \<Rightarrow> (emissions s)[k := (b, hs)]);
                  subj = lockSubject s;
                  subj' = (if ident subj = b
                           then subj\<lparr>listeners := remove1 h (listeners subj)\<rparr>
                           else subj)
              in Some (handler h (s\<lparr>emissions := ems, lockSubject := subj'\<rparr>))))
      else None)"

text \<open>Lines 57-60: the executor of the entry in flight is resumed after
  \<open>await waitForUnlock()\<close>. For the sentinel it returns \<open>null\<close>; otherwise it invokes
  \<open>promise(...args)\<close> and awaits it.\<close>

definition resume :: "('a, 'r) lock_state \<Rightarrow> ('a, 'r) lock_state option" where
  "resume s =
     (case inflight (executeFn s) of
        None \<Rightarrow> None
      | Some (i, args) \<Rightarrow>
          (if phase s = Unlocked then
             (if first args = Some NEVER_VALUE then Some (finish_executeFn None s)
              else Some (s\<lparr>bodies := bodies s @ [i], phase := InBody\<rparr>))
           else None))"

text \<open>Line 60: the promise of \<open>promise(...args)\<close> settles and the executor returns its
  result. The user's function is the parameter \<open>promise\<close>; \<open>'r\<close> is what its promise
  settles with (a value or a rejection).\<close>

definition settle ::
  "('a arg list \<Rightarrow> 'r) \<Rightarrow> ('a, 'r) lock_state \<Rightarrow> ('a, 'r) lock_state option" where
  "settle promise s =
     (case inflight (executeFn s) of
        None \<Rightarrow> None
      | Some (i, args) \<Rightarrow>
          (if phase s = InBody then Some (finish_executeFn (Some (promise args)) s)
           else None))"

section \<open>Runs\<close>

text \<open>
  The runtime is single-threaded: between two suspension points a piece of code runs
  alone. A run is a list of such pieces: the calls made from outside and the
  resumptions made by the scheduler. A piece that cannot run in a state gives \<open>None\<close>.
\<close>

datatype 'a event =
  Call "'a list" | BeginLock | EndLock | Clear | Cancel | Notify nat | Resume | Settle

fun step ::
  "('a arg list \<Rightarrow> 'r) \<Rightarrow> 'a event \<Rightarrow> ('a, 'r) lock_state \<Rightarrow> ('a, 'r) lock_state option"
  where
  "step promise (Call args) s = Some (wrappedFn args s)"
| "step promise BeginLock s = Some (beginLock s)"
| "step promise EndLock s = Some (endLock s)"
| "step promise Clear s = Some (clear s)"
| "step promise Cancel s = Some (cancel s)"
| "step promise (Notify k) s = notify k s"
| "step promise Resume s = resume s"
| "step promise Settle s = settle promise s"

fun run ::
  "('a arg list \<Rightarrow> 'r) \<Rightarrow> 'a event list \<Rightarrow> ('a, 'r) lock_state \<Rightarrow> ('a, 'r) lock_state option"
  where
  "run promise [] s = Some s"
| "run promise (e # es) s =
     (case step promise e s of None \<Rightarrow> None | Some s' \<Rightarrow> run promise es s')"


section \<open>Invariants of the runs\<close>

text \<open>The entries of a queue are numbered in the order of the queue: the entry in flight
  before the pending ones, and these in increasing order.\<close>

definition q_ordered :: "('p, 'x) queue \<Rightarrow> bool" where
  "q_ordered q \<longleftrightarrow>
     sorted_wrt (<) (map fst (pending q)) \<and>
     (\<forall>j \<in> set (map fst (pending q)). j < nextId q) \<and>
     (inflight q = None \<longrightarrow> pending q = []) \<and>
     (\<forall>i a. inflight q = Some (i, a) \<longrightarrow>
        i < nextId q \<and> (\<forall>j \<in> set (map fst (pending q)). i < j))"

text \<open>The bodies have run in the order of the numbers, none of them for an entry that is
  still behind the one in flight.\<close>

definition fifo_inv :: "('a, 'r) lock_state \<Rightarrow> bool" where
  "fifo_inv s \<longleftrightarrow>
     q_ordered (executeFn s) \<and> sorted_wrt (<) (bodies s) \<and>
     (\<forall>b \<in> set (bodies s). b < nextId (executeFn s)) \<and>
     (\<forall>i a. inflight (executeFn s) = Some (i, a) \<longrightarrow>
        (\<forall>b \<in> set (bodies s). if phase s = InBody then b \<le> i else b < i))"


text \<open>The counter is not negative and the behavior subject holds its value.\<close>

definition count_inv :: "('a, 'r) lock_state \<Rightarrow> bool" where
  "count_inv s \<longleftrightarrow> 0 \<le> lockCount s \<and> data (lockSubject s) = lockCount s"

text \<open>Every entry the queue has taken, with its number and its arguments: the settled
  ones, the one in flight and the pending ones.\<close>

definition history :: "('p, 'x) queue \<Rightarrow> (nat \<times> 'p) list" where
  "history q =
     map (\<lambda>e. (fst e, fst (snd e))) (settled q) @
     (case inflight q of None \<Rightarrow> [] | Some e \<Rightarrow> [e]) @ pending q"

text \<open>The numbers of the settled entries are used up, and an entry whose first argument
  is the sentinel never has its body invoked.\<close>

definition sentinel_inv :: "('a, 'r) lock_state \<Rightarrow> bool" where
  "sentinel_inv s \<longleftrightarrow>
     (\<forall>(j, a, r) \<in> set (settled (executeFn s)).
        j < nextId (executeFn s) \<and>
        (first a = Some NEVER_VALUE \<longrightarrow>
           j \<notin> set (bodies s) \<and> (r = Settled None \<or> r = CANCELED_SYMBOL))) \<and>
     (\<forall>i a. inflight (executeFn s) = Some (i, a) \<longrightarrow>
        i \<notin> fst ` set (settled (executeFn s)) \<and>
        (first a = Some NEVER_VALUE \<longrightarrow> i \<notin> set (bodies s) \<and> phase s \<noteq> InBody)) \<and>
     (\<forall>e \<in> set (pending (executeFn s)). fst e \<notin> fst ` set (settled (executeFn s)))"

text \<open>Without \<open>endLock()\<close> no entry holds the sentinel and no entry has settled with
  \<open>null\<close>.\<close>

definition caller_inv :: "('a, 'r) lock_state \<Rightarrow> bool" where
  "caller_inv s \<longleftrightarrow>
     (\<forall>e \<in> set (history (executeFn s)). NEVER_VALUE \<notin> set (snd e)) \<and>
     (\<forall>(j, a, r) \<in> set (settled (executeFn s)). r \<noteq> Settled None)"

text \<open>At some moment of the run the depth was 0 while call \<open>i\<close> was in flight with its
  unlock wait resolved.\<close>

definition unlock_seen ::
  "('a arg list \<Rightarrow> 'r) \<Rightarrow> 'a event list \<Rightarrow> nat \<Rightarrow> bool" where
  "unlock_seen promise evs i \<longleftrightarrow>
     (\<exists>n s1 a. n \<le> length evs \<and> run promise (take n evs) lock = Some s1 \<and>
        lockCount s1 = 0 \<and> inflight (executeFn s1) = Some (i, a) \<and> phase s1 = Unlocked)"

section \<open>A sample user function\<close>

text \<open>A user function for the concrete runs below: called with one number it resolves
  with that number plus 100.\<close>

definition answer :: "nat arg list \<Rightarrow> nat" where
  "answer args = (case args of [Arg n] \<Rightarrow> n + 100 | _ \<Rightarrow> 0)"

section \<open>What each operation leaves unchanged\<close>


lemma resolve_frame [simp]:
  "executeFn (resolve h s) = executeFn s" "bodies (resolve h s) = bodies s"
  "lockCount (resolve h s) = lockCount s" "lockSubject (resolve h s) = lockSubject s"
  "emissions (resolve h s) = emissions s"
  by (simp_all add: resolve_def split: option.splits prod.splits)

lemma handler_frame [simp]:
  "executeFn (handler h s) = executeFn s" "bodies (handler h s) = bodies s"
  "lockCount (handler h s) = lockCount s" "data (lockSubject (handler h s)) = data (lockSubject s)"
  "ident (lockSubject (handler h s)) = ident (lockSubject s)"
  "emissions (handler h s) = emissions s"
  by (simp_all add: handler_def once_def)

lemma waitForUnlock_frame [simp]:
  "executeFn (waitForUnlock s) = executeFn s" "bodies (waitForUnlock s) = bodies s"
  "lockCount (waitForUnlock s) = lockCount s"
  "data (lockSubject (waitForUnlock s)) = data (lockSubject s)"
  "ident (lockSubject (waitForUnlock s)) = ident (lockSubject s)"
  "emissions (waitForUnlock s) = emissions s"
  by (simp_all add: waitForUnlock_def split: option.splits prod.splits)

lemma lockSubject_next_frame [simp]:
  "executeFn (lockSubject_next v s) = executeFn s" "bodies (lockSubject_next v s) = bodies s"
  "lockCount (lockSubject_next v s) = lockCount s" "phase (lockSubject_next v s) = phase s"
  "data (lockSubject (lockSubject_next v s)) = v"
  "ident (lockSubject (lockSubject_next v s)) = ident (lockSubject s)"
  "listeners (lockSubject (lockSubject_next v s)) = listeners (lockSubject s)"
  by (simp_all add: lockSubject_next_def subject_next_def)

lemma call_executeFn_frame [simp]:
  "executeFn (call_executeFn args s) = q_call args (executeFn s)"
  "bodies (call_executeFn args s) = bodies s"
  "lockCount (call_executeFn args s) = lockCount s"
  "data (lockSubject (call_executeFn args s)) = data (lockSubject s)"
  "ident (lockSubject (call_executeFn args s)) = ident (lockSubject s)"
  by (simp_all add: call_executeFn_def Let_def)

lemma finish_executeFn_frame [simp]:
  "executeFn (finish_executeFn x s) = q_finish x (executeFn s)"
  "bodies (finish_executeFn x s) = bodies s"
  "lockCount (finish_executeFn x s) = lockCount s"
  "data (lockSubject (finish_executeFn x s)) = data (lockSubject s)"
  "ident (lockSubject (finish_executeFn x s)) = ident (lockSubject s)"
  by (simp_all add: finish_executeFn_def Let_def split: list.splits)

lemma phase_handler:
  "phase (handler h s) = (if data (lockSubject s) = 0 then phase (resolve h s) else phase s)"
  by (simp add: handler_def)

lemma phase_waitForUnlock:
  "inflight (executeFn s) = Some (i, args) \<Longrightarrow>
   phase (waitForUnlock s) = (if data (lockSubject s) = 0 then Unlocked else Waiting)"
  by (simp add: waitForUnlock_def handler_def resolve_def)

lemma api_frame [simp]:
  "executeFn (wrappedFn args s) = q_call (map Arg args) (executeFn s)"
  "bodies (wrappedFn args s) = bodies s"
  "executeFn (beginLock s) = executeFn s" "bodies (beginLock s) = bodies s"
  "phase (beginLock s) = phase s"
  "executeFn (endLock s) = q_call [NEVER_VALUE] (executeFn s)" "bodies (endLock s) = bodies s"
  "executeFn (clear s) = q_clear (executeFn s)" "bodies (clear s) = bodies s"
  "phase (clear s) = phase s"
  "executeFn (cancel s) = q_cancel (q_clear (executeFn s))" "bodies (cancel s) = bodies s"
  "phase (cancel s) = phase s"
  by (simp_all add: wrappedFn_def beginLock_def endLock_def clear_def cancel_def Let_def)

lemma api_count [simp]:
  "lockCount (wrappedFn args s) = lockCount s"
  "lockCount (beginLock s) = lockCount s + 1"
  "lockCount (endLock s) = max (lockCount s - 1) 0"
  "lockCount (clear s) = 0" "lockCount (cancel s) = 0"
  "data (lockSubject (wrappedFn args s)) = data (lockSubject s)"
  "data (lockSubject (beginLock s)) = lockCount s + 1"
  "data (lockSubject (endLock s)) = max (lockCount s - 1) 0"
  "data (lockSubject (clear s)) = 0" "data (lockSubject (cancel s)) = 0"
  by (simp_all add: wrappedFn_def beginLock_def endLock_def clear_def cancel_def Let_def
        new_BehaviorSubject_def)

lemma notify_frame:
  "notify k s = Some s' \<Longrightarrow>
     executeFn s' = executeFn s \<and> bodies s' = bodies s \<and> lockCount s' = lockCount s \<and>
     data (lockSubject s') = data (lockSubject s)"
  by (auto simp: notify_def Let_def split: if_splits prod.splits list.splits)

lemma resume_cases:
  assumes "resume s = Some s'"
  obtains (sentinel) i args where "inflight (executeFn s) = Some (i, args)" "phase s = Unlocked"
      "first args = Some NEVER_VALUE" "s' = finish_executeFn None s"
    | (body) i args where "inflight (executeFn s) = Some (i, args)" "phase s = Unlocked"
      "first args \<noteq> Some NEVER_VALUE" "s' = s\<lparr>bodies := bodies s @ [i], phase := InBody\<rparr>"
  using assms by (auto simp: resume_def split: option.splits if_splits)

lemma settle_cases:
  assumes "settle promise s = Some s'"
  obtains i args where "inflight (executeFn s) = Some (i, args)" "phase s = InBody"
      "s' = finish_executeFn (Some (promise args)) s"
  using assms by (auto simp: settle_def split: option.splits if_splits)

lemma notify_phase:
  "notify k s = Some s' \<Longrightarrow> phase s' = phase s \<or> (phase s = Waiting \<and> phase s' = Unlocked)"
  by (auto simp: notify_def handler_def resolve_def Let_def
       split: if_splits prod.splits list.splits option.splits)

lemma waitForUnlock_phase:
  "inflight (executeFn s) = Some e \<Longrightarrow> phase (waitForUnlock s) \<noteq> InBody"
  by (cases e) (simp add: phase_waitForUnlock)

section \<open>The queue keeps the order of submission\<close>

lemma q_ordered_call: "q_ordered q \<Longrightarrow> q_ordered (q_call args q)"
  by (auto simp: q_ordered_def q_call_def q_idle_def Let_def sorted_wrt_append
        split: option.splits list.splits)

lemma q_ordered_finish: "q_ordered q \<Longrightarrow> q_ordered (q_finish x q)"
  by (fastforce simp: q_ordered_def q_finish_def Let_def split: option.splits list.splits)

lemma q_ordered_clear: "q_ordered q \<Longrightarrow> q_ordered (q_clear q)"
  by (auto simp: q_ordered_def q_clear_def split: option.splits)

lemma q_ordered_cancel: "q_ordered q \<Longrightarrow> q_ordered (q_cancel q)"
  by (auto simp: q_ordered_def q_cancel_def q_clear_def Let_def split: option.splits)

lemma fifo_inv_call: 
  assumes "fifo_inv s" shows "fifo_inv (call_executeFn args s)"
proof (cases "q_idle (executeFn s)")
  case True
  then have fl: "inflight (q_call args (executeFn s)) = Some (nextId (executeFn s), args)"
    by (simp add: q_call_def Let_def)
  have ph: "phase (call_executeFn args s) \<noteq> InBody"
    using True fl by (simp add: call_executeFn_def Let_def waitForUnlock_phase)
  show ?thesis using assms fl ph
    by (auto simp: fifo_inv_def q_ordered_call) (auto simp: q_call_def Let_def True)
next
  case False
  then have ph: "phase (call_executeFn args s) = phase s"
    by (simp add: call_executeFn_def Let_def)
  have fl: "inflight (q_call args (executeFn s)) = inflight (executeFn s)"
    "nextId (q_call args (executeFn s)) = Suc (nextId (executeFn s))"
    using False by (simp_all add: q_call_def Let_def)
  show ?thesis using assms fl ph
    by (auto simp: fifo_inv_def q_ordered_call split: option.splits)
qed


lemma q_finish_None: "inflight q = None \<Longrightarrow> q_finish x q = q"
  by (simp add: q_finish_def)

lemma q_finish_last:
  "inflight q = Some (i, a) \<Longrightarrow> pending q = [] \<Longrightarrow>
   inflight (q_finish x q) = None \<and> pending (q_finish x q) = [] \<and>
   nextId (q_finish x q) = nextId q"
  by (simp add: q_finish_def Let_def)

lemma q_finish_next:
  "inflight q = Some (i, a) \<Longrightarrow> pending q = e # es \<Longrightarrow>
   inflight (q_finish x q) = Some e \<and> pending (q_finish x q) = es \<and>
   nextId (q_finish x q) = nextId q"
  by (simp add: q_finish_def Let_def)

lemma fifo_inv_finish:
  assumes "fifo_inv s" and "inflight (executeFn s) = Some (i, a)"
    and "\<forall>b \<in> set (bodies s). b \<le> i"
  shows "fifo_inv (finish_executeFn x s)"
proof (cases "pending (executeFn s)")
  case Nil
  with assms show ?thesis
    using q_finish_last[OF assms(2) Nil, of x] q_ordered_finish[of "executeFn s" x]
    by (auto simp: fifo_inv_def)
next
  case (Cons e es)
  note nx = q_finish_next[OF assms(2) Cons, of x]
  have ph: "phase (finish_executeFn x s) \<noteq> InBody"
    using nx Cons by (simp add: finish_executeFn_def Let_def waitForUnlock_phase)
  have lt: "i < fst e" using assms(1,2) Cons by (auto simp: fifo_inv_def q_ordered_def)
  show ?thesis
    using assms nx ph lt q_ordered_finish[of "executeFn s" x]
    by (cases e) (fastforce simp: fifo_inv_def)
qed

lemma fifo_inv_notify: "fifo_inv s \<Longrightarrow> notify k s = Some s' \<Longrightarrow> fifo_inv s'"
  using notify_frame[of k s s'] notify_phase[of k s s']
  by (auto simp: fifo_inv_def split: option.splits if_splits)

lemma fifo_inv_resume:
  assumes "fifo_inv s" and "resume s = Some s'"
  shows "fifo_inv s'"
  using assms(2)
proof (cases rule: resume_cases)
  case (sentinel i args)
  have "\<forall>b \<in> set (bodies s). b \<le> i"
    using assms(1) sentinel(1,2) by (fastforce simp: fifo_inv_def)
  then show ?thesis using fifo_inv_finish[OF assms(1) sentinel(1)] sentinel(4) by simp
next
  case (body i args)
  then show ?thesis using assms(1)
    by (auto simp: fifo_inv_def sorted_wrt_append q_ordered_def)
qed

lemma fifo_inv_settle:
  assumes "fifo_inv s" and "settle promise s = Some s'"
  shows "fifo_inv s'"
  using assms(2)
proof (cases rule: settle_cases)
  case (1 i args)
  have "\<forall>b \<in> set (bodies s). b \<le> i"
    using assms(1) 1(1,2) by (fastforce simp: fifo_inv_def)
  then show ?thesis using fifo_inv_finish[OF assms(1) 1(1)] 1(3) by simp
qed

lemma fifo_inv_beginLock: "fifo_inv s \<Longrightarrow> fifo_inv (beginLock s)"
  by (simp add: fifo_inv_def)

lemma fifo_inv_clear: "fifo_inv s \<Longrightarrow> fifo_inv (clear s)"
  using q_ordered_clear[of "executeFn s"]
  by (auto simp: fifo_inv_def) (auto simp: q_clear_def)

lemma fifo_inv_cancel: "fifo_inv s \<Longrightarrow> fifo_inv (cancel s)"
  using q_ordered_cancel[of "q_clear (executeFn s)"] q_ordered_clear[of "executeFn s"]
  by (auto simp: fifo_inv_def) (auto simp: q_clear_def q_cancel_def Let_def)

lemma fifo_inv_endLock: "fifo_inv s \<Longrightarrow> fifo_inv (endLock s)"
proof -
  assume a: "fifo_inv s"
  let ?s2 = "lockSubject_next (max (lockCount s - 1) 0) (s\<lparr>lockCount := max (lockCount s - 1) 0\<rparr>)"
  have "fifo_inv ?s2" using a by (simp add: fifo_inv_def)
  then have "fifo_inv (call_executeFn [NEVER_VALUE] ?s2)" by (rule fifo_inv_call)
  then show ?thesis by (simp add: endLock_def Let_def)
qed

lemma fifo_inv_step:
  assumes "fifo_inv s" and "step promise e s = Some s'"
  shows "fifo_inv s'"
proof (cases e)
  case (Call args)
  then show ?thesis using assms by (auto simp: wrappedFn_def intro: fifo_inv_call)
next
  case (Notify k)
  then show ?thesis using assms by (auto intro: fifo_inv_notify)
next
  case Resume
  then show ?thesis using assms by (auto intro: fifo_inv_resume)
next
  case Settle
  then show ?thesis using assms by (auto intro: fifo_inv_settle)
qed (use assms in \<open>auto intro: fifo_inv_beginLock fifo_inv_endLock fifo_inv_clear fifo_inv_cancel\<close>)

lemma fifo_inv_run: "fifo_inv s \<Longrightarrow> run promise evs s = Some s' \<Longrightarrow> fifo_inv s'"
  by (induction evs arbitrary: s) (auto split: option.splits dest: fifo_inv_step)

lemma fifo_inv_lock: "fifo_inv lock"
  by (simp add: fifo_inv_def q_ordered_def lock_def queued_def)


section \<open>Entries settle in order when nothing is reset\<close>














section \<open>The depth counter\<close>

lemma count_inv_step: "count_inv s \<Longrightarrow> step promise e s = Some s' \<Longrightarrow> count_inv s'"
proof (cases e)
  case (Notify k)
  assume "count_inv s" "step promise e s = Some s'"
  then show ?thesis using Notify notify_frame[of k s s'] by (simp add: count_inv_def)
next
  case Resume
  assume "count_inv s" "step promise e s = Some s'"
  then show ?thesis using Resume by (auto simp: count_inv_def elim!: resume_cases)
next
  case Settle
  assume "count_inv s" "step promise e s = Some s'"
  then show ?thesis using Settle by (auto simp: count_inv_def elim!: settle_cases)
qed (auto simp: count_inv_def)

lemma count_inv_run: "count_inv s \<Longrightarrow> run promise evs s = Some s' \<Longrightarrow> count_inv s'"
  by (induction evs arbitrary: s) (auto split: option.splits dest: count_inv_step)

lemma count_inv_lock: "count_inv lock"
  by (simp add: count_inv_def lock_def new_BehaviorSubject_def)

lemma lockCount_beginLock_funpow: "lockCount ((beginLock ^^ n) s) = lockCount s + int n"
  by (induction n) simp_all

lemma lockCount_endLock_funpow:
  "0 \<le> lockCount s \<Longrightarrow> lockCount ((endLock ^^ k) s) = max (lockCount s - int k) 0"
  by (induction k) auto

lemma step_lockCount_unchanged:
  "step promise e s = Some s' \<Longrightarrow> e \<noteq> BeginLock \<Longrightarrow> e \<noteq> EndLock \<Longrightarrow> e \<noteq> Clear \<Longrightarrow>
   e \<noteq> Cancel \<Longrightarrow> lockCount s' = lockCount s"
  by (cases e) (auto dest: notify_frame elim!: resume_cases settle_cases)

section \<open>The history of the queue\<close>

lemma history_call: "history (q_call args q) = history q @ [(nextId q, args)]"
  by (auto simp: history_def q_call_def q_idle_def Let_def split: option.splits list.splits)

lemma history_finish: "history (q_finish x q) = history q"
  by (auto simp: history_def q_finish_def Let_def split: option.splits list.splits)




lemma run_append:
  "run promise (xs @ ys) s =
     (case run promise xs s of None \<Rightarrow> None | Some s1 \<Rightarrow> run promise ys s1)"
  by (induction xs arbitrary: s) (auto split: option.splits)


section \<open>The sentinel never runs a body\<close>

lemma fifo_bodies_le:
  assumes "fifo_inv s" and "inflight (executeFn s) = Some (i, a)" and "b \<in> set (bodies s)"
  shows "b \<le> i"
proof -
  have "if phase s = InBody then b \<le> i else b < i"
    using assms by (simp add: fifo_inv_def)
  then show ?thesis by (simp split: if_splits)
qed

lemma fifo_bodies_pending:
  assumes "fifo_inv s" and "b \<in> set (bodies s)" and "e \<in> set (pending (executeFn s))"
  shows "b < fst e"
proof (cases "inflight (executeFn s)")
  case None
  then show ?thesis using assms by (simp add: fifo_inv_def q_ordered_def)
next
  case (Some x)
  obtain i a where x: "x = (i, a)" by (cases x)
  have "b \<le> i" using fifo_bodies_le[OF assms(1) _ assms(2)] Some x by simp
  moreover have "i < fst e" using assms(1,3) Some x by (simp add: fifo_inv_def q_ordered_def)
  ultimately show ?thesis by simp
qed

lemma sentinel_inv_frame:
  assumes "sentinel_inv s" and "executeFn s' = executeFn s" and "bodies s' = bodies s"
    and "phase s' = InBody \<longrightarrow> phase s = InBody"
  shows "sentinel_inv s'"
  using assms unfolding sentinel_inv_def by auto

lemma sentinel_inv_call:
  assumes "sentinel_inv s" and "fifo_inv s"
  shows "sentinel_inv (call_executeFn args s)"
proof (cases "q_idle (executeFn s)")
  case True
  then have fl: "inflight (q_call args (executeFn s)) = Some (nextId (executeFn s), args)"
    by (simp add: q_call_def Let_def)
  have ph: "phase (call_executeFn args s) \<noteq> InBody"
    using True fl by (simp add: call_executeFn_def Let_def waitForUnlock_phase)
  have nb: "nextId (executeFn s) \<notin> set (bodies s)"
    using assms(2) by (auto simp: fifo_inv_def)
  show ?thesis using assms(1) True ph nb
    by (fastforce simp: sentinel_inv_def q_call_def Let_def)
next
  case False
  then have ph: "phase (call_executeFn args s) = phase s"
    by (simp add: call_executeFn_def Let_def)
  show ?thesis using assms(1) False ph
    by (fastforce simp: sentinel_inv_def q_call_def Let_def)
qed

lemma sentinel_inv_finish:
  assumes "sentinel_inv s" and "fifo_inv s" and "inflight (executeFn s) = Some (i, a)"
    and "first a = Some NEVER_VALUE \<longrightarrow> x = None"
  shows "sentinel_inv (finish_executeFn x s)"
proof -
  let ?q = "executeFn s"
  let ?r = "if discarded ?q then CANCELED_SYMBOL else Settled x"
  have st: "settled (q_finish x ?q) = settled ?q @ [(i, a, ?r)]"
    "nextId (q_finish x ?q) = nextId ?q"
    using assms(3) by (auto simp: q_finish_def Let_def split: list.splits)
  have i: "i < nextId ?q" "i \<notin> fst ` set (settled ?q)"
    "first a = Some NEVER_VALUE \<longrightarrow> i \<notin> set (bodies s)"
    using assms(1,2,3) by (auto simp: fifo_inv_def q_ordered_def sentinel_inv_def)
  have pend: "\<forall>e \<in> set (pending ?q). i < fst e \<and> fst e \<notin> fst ` set (settled ?q)"
    using assms(1,2,3) by (auto simp: fifo_inv_def q_ordered_def sentinel_inv_def)
  have old: "\<forall>(j, a, r) \<in> set (settled ?q). j < nextId ?q \<and>
        (first a = Some NEVER_VALUE \<longrightarrow>
           j \<notin> set (bodies s) \<and> (r = Settled None \<or> r = CANCELED_SYMBOL))"
    using assms(1) by (simp add: sentinel_inv_def)
  show ?thesis
  proof (cases "pending ?q")
    case Nil
    have "inflight (q_finish x ?q) = None" "pending (q_finish x ?q) = []"
      using q_finish_last[OF assms(3) Nil, of x] by simp_all
    then show ?thesis using st i old assms(4)
      by (auto simp: sentinel_inv_def)
  next
    case (Cons e es)
    note nx = q_finish_next[OF assms(3) Cons, of x]
    have ph: "phase (finish_executeFn x s) \<noteq> InBody"
      using nx Cons by (simp add: finish_executeFn_def Let_def waitForUnlock_phase)
    have eb: "fst e \<notin> set (bodies s)"
      using fifo_bodies_pending[OF assms(2), of "fst e" e] Cons by auto
    have pe: "i < fst e" "fst e \<notin> fst ` set (settled ?q)"
       "\<forall>e' \<in> set es. i < fst e' \<and> fst e' \<notin> fst ` set (settled ?q)"
      using pend Cons by auto
    show ?thesis
      unfolding sentinel_inv_def
      using st i old assms(4) nx ph eb pe
      by (cases e) (auto simp: image_iff)
  qed
qed


lemma sentinel_inv_notify:
  "sentinel_inv s \<Longrightarrow> notify k s = Some s' \<Longrightarrow> sentinel_inv s'"
  using notify_frame[of k s s'] notify_phase[of k s s']
  by (auto intro: sentinel_inv_frame)

lemma sentinel_inv_resume:
  assumes "sentinel_inv s" and "fifo_inv s" and "resume s = Some s'"
  shows "sentinel_inv s'"
  using assms(3)
proof (cases rule: resume_cases)
  case (sentinel i args)
  then show ?thesis using sentinel_inv_finish[OF assms(1,2) sentinel(1), of None] by simp
next
  case (body i args)
  have "i \<notin> fst ` set (settled (executeFn s))"
    using assms(1) body(1) by (simp add: sentinel_inv_def)
  then have ne: "\<forall>(j, a, r) \<in> set (settled (executeFn s)). j \<noteq> i" by force
  have ex: "executeFn s' = executeFn s" "bodies s' = bodies s @ [i]" "phase s' = InBody"
    using body(4) by simp_all
  show ?thesis
    unfolding sentinel_inv_def ex
    using assms(1) ne body(1,3) unfolding sentinel_inv_def
    by (simp add: case_prod_beta)
qed

lemma sentinel_inv_settle:
  assumes "sentinel_inv s" and "fifo_inv s" and "settle promise s = Some s'"
  shows "sentinel_inv s'"
  using assms(3)
proof (cases rule: settle_cases)
  case (1 i args)
  then have "first args \<noteq> Some NEVER_VALUE"
    using assms(1) by (auto simp: sentinel_inv_def)
  then show ?thesis
    using sentinel_inv_finish[OF assms(1,2) 1(1), of "Some (promise args)"] 1(3) by simp
qed

lemma sentinel_inv_beginLock: "sentinel_inv s \<Longrightarrow> sentinel_inv (beginLock s)"
  by (erule sentinel_inv_frame) simp_all

lemma sentinel_inv_endLock:
  assumes "sentinel_inv s" and "fifo_inv s" shows "sentinel_inv (endLock s)"
proof -
  let ?s2 = "lockSubject_next (max (lockCount s - 1) 0) (s\<lparr>lockCount := max (lockCount s - 1) 0\<rparr>)"
  have "sentinel_inv ?s2" using assms(1) by (rule sentinel_inv_frame) simp_all
  moreover have "fifo_inv ?s2" using assms(2) by (simp add: fifo_inv_def)
  ultimately have "sentinel_inv (call_executeFn [NEVER_VALUE] ?s2)" by (rule sentinel_inv_call)
  then show ?thesis by (simp add: endLock_def Let_def)
qed

lemma sentinel_inv_clear:
  assumes "sentinel_inv s" and "fifo_inv s" shows "sentinel_inv (clear s)"
proof -
  let ?q = "executeFn s"
  have p: "\<forall>e \<in> set (pending ?q). fst e < nextId ?q \<and> fst e \<notin> set (bodies s)"
    using assms(2) fifo_bodies_pending[OF assms(2)]
    by (fastforce simp: fifo_inv_def q_ordered_def)
  have fl: "\<forall>i a. inflight ?q = Some (i, a) \<longrightarrow> (\<forall>e \<in> set (pending ?q). i < fst e)"
    using assms(2) by (simp add: fifo_inv_def q_ordered_def)
  show ?thesis
    unfolding sentinel_inv_def
    using assms(1) p fl
    by (simp add: sentinel_inv_def q_clear_def image_Un image_image case_prod_beta ball_Un)
       fastforce
qed

lemma q_cancel_clear:
  "q_cancel (q_clear q) =
     (q_clear q)\<lparr>discarded := (case inflight q of None \<Rightarrow> False | Some e \<Rightarrow> True)\<rparr>"
  by (simp add: q_cancel_def q_clear_def Let_def)

lemma sentinel_inv_cancel:
  assumes "sentinel_inv s" and "fifo_inv s" shows "sentinel_inv (cancel s)"
proof -
  have "sentinel_inv (clear s)" using assms by (rule sentinel_inv_clear)
  then show ?thesis
    by (simp add: sentinel_inv_def q_cancel_clear)
qed

lemma sentinel_inv_step:
  assumes "sentinel_inv s" and "fifo_inv s" and "step promise e s = Some s'"
  shows "sentinel_inv s'"
proof (cases e)
  case (Call args)
  then show ?thesis using assms by (auto simp: wrappedFn_def intro: sentinel_inv_call)
next
  case (Notify k)
  then show ?thesis using assms by (auto intro: sentinel_inv_notify)
next
  case Resume
  then show ?thesis using assms by (auto intro: sentinel_inv_resume)
next
  case Settle
  then show ?thesis using assms by (auto intro: sentinel_inv_settle)
qed (use assms in \<open>auto intro: sentinel_inv_beginLock sentinel_inv_endLock sentinel_inv_clear
        sentinel_inv_cancel\<close>)

lemma sentinel_inv_run:
  "sentinel_inv s \<Longrightarrow> fifo_inv s \<Longrightarrow> run promise evs s = Some s' \<Longrightarrow> sentinel_inv s'"
proof (induction evs arbitrary: s)
  case Nil
  then show ?case by simp
next
  case (Cons e es)
  from Cons.prems obtain s1 where s1: "step promise e s = Some s1" "run promise es s1 = Some s'"
    by (auto split: option.splits)
  have "sentinel_inv s1" using sentinel_inv_step[OF Cons.prems(1,2) s1(1)] .
  moreover have "fifo_inv s1" using fifo_inv_step[OF Cons.prems(2) s1(1)] .
  ultimately show ?case using Cons.IH s1(2) by blast
qed

lemma sentinel_inv_lock: "sentinel_inv lock"
  by (simp add: sentinel_inv_def lock_def queued_def)

section \<open>Runs without endLock\<close>

lemma first_in_set: "first a = Some x \<Longrightarrow> x \<in> set a"
  by (cases a) (simp_all add: first_def)

lemma set_history_clear: "set (history (q_clear q)) = set (history q)"
  by (auto simp: history_def q_clear_def image_image case_prod_beta image_Un
        split: option.splits)

lemma set_history_cancel: "set (history (q_cancel q)) = set (history q)"
  by (auto simp: history_def q_cancel_def q_clear_def Let_def image_image case_prod_beta
        image_Un split: option.splits)

lemma inflight_in_history: "inflight q = Some e \<Longrightarrow> e \<in> set (history q)"
  by (simp add: history_def)

lemma q_call_settled: "settled (q_call args q) = settled q"
  by (simp add: q_call_def Let_def)

lemma caller_inv_finish:
  assumes "caller_inv s" and "x \<noteq> None"
  shows "caller_inv (finish_executeFn x s)"
  using assms
  by (auto simp: caller_inv_def history_finish)
     (auto simp: q_finish_def Let_def split: option.splits list.splits if_splits)

lemma caller_inv_step:
  assumes "caller_inv s" and "step promise e s = Some s'" and "e \<noteq> EndLock"
  shows "caller_inv s'"
proof (cases e)
  case (Call args)
  then show ?thesis using assms
    by (auto simp: caller_inv_def history_call q_call_settled)
next
  case BeginLock
  then show ?thesis using assms by (auto simp: caller_inv_def)
next
  case EndLock
  then show ?thesis using assms by simp
next
  case Clear
  then show ?thesis using assms
    by (auto simp: caller_inv_def set_history_clear) (auto simp: q_clear_def)
next
  case Cancel
  then show ?thesis using assms
    by (auto simp: caller_inv_def set_history_clear set_history_cancel)
       (auto simp: q_clear_def q_cancel_def Let_def)
next
  case (Notify k)
  then show ?thesis using assms notify_frame[of k s s'] by (simp add: caller_inv_def)
next
  case Resume
  then have "resume s = Some s'" using assms by simp
  then show ?thesis
  proof (cases rule: resume_cases)
    case (sentinel i args)
    then have "NEVER_VALUE \<in> set args" by (simp add: first_in_set)
    moreover have "(i, args) \<in> set (history (executeFn s))"
      using sentinel(1) by (rule inflight_in_history)
    ultimately show ?thesis using assms(1) by (auto simp: caller_inv_def)
  next
    case (body i args)
    then show ?thesis using assms(1) by (simp add: caller_inv_def)
  qed
next
  case Settle
  then show ?thesis using assms by (auto intro: caller_inv_finish elim!: settle_cases)
qed

lemma caller_inv_run:
  "caller_inv s \<Longrightarrow> run promise evs s = Some s' \<Longrightarrow> EndLock \<notin> set evs \<Longrightarrow> caller_inv s'"
  by (induction evs arbitrary: s) (auto split: option.splits dest: caller_inv_step)

lemma caller_inv_lock: "caller_inv lock"
  by (simp add: caller_inv_def history_def lock_def queued_def)

section \<open>The unlock wait\<close>

lemma unlock_seen_mono: "unlock_seen promise evs i \<Longrightarrow> unlock_seen promise (evs @ [e]) i"
  unfolding unlock_seen_def
  by (elim exE conjE) (rule_tac x = n in exI, auto)

lemma unlock_seen_now:
  assumes "run promise evs lock = Some s" and "lockCount s = 0"
    and "inflight (executeFn s) = Some (i, a)" and "phase s = Unlocked"
  shows "unlock_seen promise evs i"
  unfolding unlock_seen_def
  using assms by (intro exI[of _ "length evs"] exI[of _ s] exI[of _ a]) simp

lemma notify_unlocks:
  "notify k s = Some s' \<Longrightarrow> phase s' \<noteq> phase s \<Longrightarrow>
   phase s' = Unlocked \<and> data (lockSubject s') = 0"
  by (auto simp: notify_def handler_def resolve_def once_def Let_def
       split: if_splits prod.splits list.splits option.splits)

lemma waitForUnlock_unlocks:
  "inflight (executeFn s) = Some e \<Longrightarrow> phase (waitForUnlock s) \<noteq> Waiting \<Longrightarrow>
   phase (waitForUnlock s) = Unlocked \<and> data (lockSubject s) = 0"
  by (cases e) (simp add: phase_waitForUnlock split: if_splits)

lemma call_executeFn_unlocks:
  assumes "inflight (executeFn (call_executeFn args s)) = Some (i, a)"
    and "phase (call_executeFn args s) \<noteq> Waiting"
  shows "(inflight (executeFn s) = Some (i, a) \<and> phase s \<noteq> Waiting) \<or>
         (phase (call_executeFn args s) = Unlocked \<and> data (lockSubject s) = 0)"
proof (cases "q_idle (executeFn s)")
  case True
  let ?s1 = "s\<lparr>executeFn := q_call args (executeFn s)\<rparr>"
  have fl: "inflight (executeFn ?s1) = Some (nextId (executeFn s), args)"
    using True by (simp add: q_call_def Let_def)
  have eq: "call_executeFn args s = waitForUnlock ?s1"
    using True by (simp add: call_executeFn_def Let_def)
  show ?thesis using waitForUnlock_unlocks[OF fl] assms(2) unfolding eq by simp
next
  case False
  then have "call_executeFn args s = s\<lparr>executeFn := q_call args (executeFn s)\<rparr>"
    by (simp add: call_executeFn_def Let_def)
  moreover have "inflight (q_call args (executeFn s)) = inflight (executeFn s)"
    using False by (simp add: q_call_def Let_def)
  ultimately show ?thesis using assms by simp
qed

lemma finish_executeFn_unlocks:
  assumes "inflight (executeFn s) = Some (i0, a0)"
    and "inflight (executeFn (finish_executeFn x s)) = Some (i, a)"
    and "phase (finish_executeFn x s) \<noteq> Waiting"
  shows "phase (finish_executeFn x s) = Unlocked \<and> data (lockSubject s) = 0"
proof (cases "pending (executeFn s)")
  case Nil
  then show ?thesis using assms q_finish_last[OF assms(1) Nil, of x] by simp
next
  case (Cons e es)
  let ?s1 = "s\<lparr>executeFn := q_finish x (executeFn s)\<rparr>"
  have fl: "inflight (executeFn ?s1) = Some e"
    using q_finish_next[OF assms(1) Cons, of x] by simp
  have eq: "finish_executeFn x s = waitForUnlock ?s1"
    using Cons by (simp add: finish_executeFn_def Let_def)
  show ?thesis using waitForUnlock_unlocks[OF fl] assms(3) unfolding eq by simp
qed

lemma step_unlocks:
  assumes "step promise e s = Some s'" and "count_inv s"
    and "inflight (executeFn s') = Some (i, a)" and "phase s' \<noteq> Waiting"
  shows "(inflight (executeFn s) = Some (i, a) \<and> phase s \<noteq> Waiting) \<or>
         (phase s' = Unlocked \<and> lockCount s' = 0)"
proof -
  have c': "data (lockSubject s') = lockCount s'"
    using count_inv_step[OF assms(2,1)] by (simp add: count_inv_def)
  show ?thesis
  proof (cases e)
    case (Call args)
    then have s': "s' = call_executeFn (map Arg args) s" using assms(1) by (simp add: wrappedFn_def)
    show ?thesis
      using call_executeFn_unlocks[of "map Arg args" s i a] assms(3,4) c' unfolding s' by auto
  next
    case BeginLock
    then show ?thesis using assms by auto
  next
    case EndLock
    let ?s2 = "lockSubject_next (max (lockCount s - 1) 0) (s\<lparr>lockCount := max (lockCount s - 1) 0\<rparr>)"
    have s': "s' = call_executeFn [NEVER_VALUE] ?s2"
      using EndLock assms(1) by (simp add: endLock_def Let_def)
    show ?thesis
      using call_executeFn_unlocks[of "[NEVER_VALUE]" ?s2 i a] assms(3,4) c' unfolding s' by auto
  next
    case Clear
    then show ?thesis using assms by (auto simp: q_clear_def)
  next
    case Cancel
    then show ?thesis using assms by (auto simp: q_clear_def q_cancel_def Let_def)
  next
    case (Notify k)
    then have n: "notify k s = Some s'" using assms(1) by simp
    show ?thesis
      using notify_frame[OF n] notify_unlocks[OF n] assms(3,4) c' by (cases "phase s' = phase s") auto
  next
    case Resume
    then have "resume s = Some s'" using assms(1) by simp
    then show ?thesis
    proof (cases rule: resume_cases)
      case (sentinel i0 a0)
      then show ?thesis
        using finish_executeFn_unlocks[OF sentinel(1), of None i a] assms(3,4) c' by auto
    next
      case (body i0 a0)
      then show ?thesis using assms(3) by auto
    qed
  next
    case Settle
    then have "settle promise s = Some s'" using assms(1) by simp
    then show ?thesis
    proof (cases rule: settle_cases)
      case (1 i0 a0)
      then show ?thesis
        using finish_executeFn_unlocks[OF 1(1), of "Some (promise a0)" i a] assms(3,4) c' by auto
    qed
  qed
qed

lemma step_bodies:
  assumes "step promise e s = Some s'" and "b \<in> set (bodies s')"
  shows "b \<in> set (bodies s) \<or> (\<exists>a. inflight (executeFn s) = Some (b, a) \<and> phase s = Unlocked)"
proof (cases e)
  case (Notify k)
  then show ?thesis using assms notify_frame[of k s s'] by simp
next
  case Resume
  then show ?thesis using assms by (auto elim!: resume_cases)
next
  case Settle
  then show ?thesis using assms by (auto elim!: settle_cases)
qed (use assms in auto)

lemma run_snoc:
  "run promise (evs @ [e]) s =
     (case run promise evs s of None \<Rightarrow> None | Some s1 \<Rightarrow> step promise e s1)"
  by (simp add: run_append split: option.splits)

lemma unlock_seen_run:
  "run promise evs lock = Some s \<Longrightarrow>
   (\<forall>b \<in> set (bodies s). unlock_seen promise evs b) \<and>
   (\<forall>i a. inflight (executeFn s) = Some (i, a) \<and> phase s \<noteq> Waiting \<longrightarrow>
      unlock_seen promise evs i)"
proof (induction evs arbitrary: s rule: rev_induct)
  case Nil
  then have "s = lock" by simp
  then show ?case by (simp add: lock_def queued_def)
next
  case (snoc e evs)
  from snoc.prems obtain s1 where s1: "run promise evs lock = Some s1" "step promise e s1 = Some s"
    by (auto simp: run_snoc split: option.splits)
  note IH = snoc.IH[OF s1(1)]
  have c1: "count_inv s1" using count_inv_run[OF count_inv_lock s1(1)] .
  have fl: "unlock_seen promise (evs @ [e]) i"
    if "inflight (executeFn s) = Some (i, a)" "phase s \<noteq> Waiting" for i a
    using step_unlocks[OF s1(2) c1 that]
  proof
    assume "inflight (executeFn s1) = Some (i, a) \<and> phase s1 \<noteq> Waiting"
    then show ?thesis using IH unlock_seen_mono by blast
  next
    assume "phase s = Unlocked \<and> lockCount s = 0"
    then show ?thesis using unlock_seen_now[OF snoc.prems _ that(1)] by simp
  qed
  have bd: "unlock_seen promise (evs @ [e]) b" if "b \<in> set (bodies s)" for b
    using step_bodies[OF s1(2) that] IH unlock_seen_mono by fastforce
  show ?case using fl bd by blast
qed

section \<open>Evaluating concrete runs\<close>

lemmas lock_defs = lock_def queued_def new_BehaviorSubject_def beginLock_def endLock_def
  wrappedFn_def clear_def cancel_def
  call_executeFn_def finish_executeFn_def q_call_def q_finish_def q_clear_def q_cancel_def
  q_idle_def waitForUnlock_def handler_def resolve_def once_def
  lockSubject_next_def subject_next_def notify_def resume_def settle_def first_def Let_def

section \<open>The claims\<close>

subsection \<open>C3: the depth counter\<close>

text \<open>
  Claim C3. The depth counter is reentrant and clamped at zero: \<open>beginLock()\<close> adds one,
  \<open>endLock()\<close> takes one off and leaves a counter that is already 0 at 0, so that after
  \<open>n\<close> calls of \<open>beginLock()\<close> on an unlocked lock the counter is back at 0 after \<open>k\<close>
  calls of \<open>endLock()\<close> exactly when \<open>n \<le> k\<close>. In every run the counter is never
  negative, the behavior subject holds its value, and no piece of code other than
  \<open>beginLock\<close>, \<open>endLock\<close>, \<open>clear\<close> and \<open>cancel\<close> changes it.
\<close>

theorem lock_depth_reentrant:
  fixes s :: "('a, 'r) lock_state"
  shows
  "lockCount (beginLock s) = lockCount s + 1 \<and>
   lockCount (endLock s) = max (lockCount s - 1) 0 \<and>
   (lockCount s = 0 \<longrightarrow> lockCount (endLock s) = 0) \<and>
   (lockCount s = 0 \<longrightarrow>
      lockCount ((endLock ^^ k) ((beginLock ^^ n) s)) = max (int n - int k) 0 \<and>
      (lockCount ((endLock ^^ k) ((beginLock ^^ n) s)) = 0 \<longleftrightarrow> n \<le> k)) \<and>
   (run promise evs lock = Some s' \<longrightarrow>
      0 \<le> lockCount s' \<and> data (lockSubject s') = lockCount s') \<and>
   (step promise e s = Some s'' \<and> e \<notin> {BeginLock, EndLock, Clear, Cancel} \<longrightarrow>
      lockCount s'' = lockCount s)"
proof -
  have "lockCount s = 0 \<Longrightarrow>
      lockCount ((endLock ^^ k) ((beginLock ^^ n) s)) = max (int n - int k) 0"
    by (simp add: lockCount_endLock_funpow lockCount_beginLock_funpow)
  moreover have "run promise evs lock = Some s' \<Longrightarrow>
      0 \<le> lockCount s' \<and> data (lockSubject s') = lockCount s'"
    using count_inv_run[OF count_inv_lock, of promise evs s'] by (simp add: count_inv_def)
  moreover have "step promise e s = Some s'' \<and> e \<notin> {BeginLock, EndLock, Clear, Cancel} \<Longrightarrow>
      lockCount s'' = lockCount s"
    using step_lockCount_unchanged[of promise e s s''] by simp
  ultimately show ?thesis by auto
qed

theorem lock_depth_reentrant_witness:
  "lockCount (lock :: (nat, nat) lock_state) = 0 \<and>
   lockCount ((endLock ^^ 3) ((beginLock ^^ 2) (lock :: (nat, nat) lock_state))) = 0 \<and>
   run answer [BeginLock, BeginLock, EndLock, Call [42], EndLock, EndLock] lock =
     Some (the (run answer [BeginLock, BeginLock, EndLock, Call [42], EndLock, EndLock] lock)) \<and>
   lockCount (the (run answer [BeginLock, BeginLock, EndLock, Call [42], EndLock, EndLock] lock)) = 0 \<and>
   step answer (Call [42]) lock = Some (wrappedFn [42] lock) \<and>
   Call [42::nat] \<notin> {BeginLock, EndLock, Clear, Cancel} \<and>
   lockCount (wrappedFn [42] (lock :: (nat, nat) lock_state)) = 0"
  using lock_depth_reentrant[where s = "lock :: (nat, nat) lock_state" and k = 3 and n = 2 
     and promise = answer and evs = "[BeginLock, BeginLock, EndLock, Call [42], EndLock, EndLock]"
     and s' = "the (run answer [BeginLock, BeginLock, EndLock, Call [42], EndLock, EndLock] lock)"
     and e = "Call [42]" and s'' = "wrappedFn [42] lock"]
  by (simp add: lock_defs)

subsection \<open>C6: clear and cancel of the lock\<close>

text \<open>
  Claim C6. In any state \<open>clear()\<close> sets the depth counter to 0, replaces the behavior
  subject by a new object (another \<open>ident\<close>, value 0, no listener) and clears the queue;
  \<open>cancel()\<close> is \<open>clear()\<close> followed by the cancellation of the queue.
\<close>

theorem lock_clear_cancel:
  fixes s :: "('a, 'r) lock_state"
  shows
  "lockCount (clear s) = 0 \<and>
   lockSubject (clear s) = new_BehaviorSubject (Suc (ident (lockSubject s))) 0 \<and>
   ident (lockSubject (clear s)) \<noteq> ident (lockSubject s) \<and>
   data (lockSubject (clear s)) = 0 \<and>
   listeners (lockSubject (clear s)) = [] \<and>
   executeFn (clear s) = q_clear (executeFn s) \<and>
   pending (executeFn (clear s)) = [] \<and>
   cancel s = (clear s)\<lparr>executeFn := q_cancel (executeFn (clear s))\<rparr> \<and>
   lockCount (cancel s) = 0 \<and>
   lockSubject (cancel s) = lockSubject (clear s) \<and>
   pending (executeFn (cancel s)) = []"
  by (simp add: clear_def cancel_def Let_def new_BehaviorSubject_def q_clear_def q_cancel_def
        lockSubject_next_def subject_next_def)

subsection \<open>C7: clear of the serialized queue\<close>

text \<open>
  Claim C7. \<open>clear()\<close> of a serialized queue settles every pending entry with the
  cancellation marker, which differs from every settlement with a value, and starts no
  entry; the entry in flight stays in flight and, when its wrapped function returns \<open>x\<close>,
  settles with \<open>x\<close>, after which nothing is started.
\<close>

theorem queued_clear_pending:
  fixes q :: "('p, 'x) queue"
  shows
  "(\<forall>e \<in> set (pending q). (fst e, snd e, CANCELED_SYMBOL) \<in> set (settled (q_clear q))) \<and>
   settled (q_clear q) =
     settled q @ map (\<lambda>e. (fst e, snd e, CANCELED_SYMBOL)) (pending q) \<and>
   pending (q_clear q) = [] \<and>
   started (q_clear q) = started q \<and>
   inflight (q_clear q) = inflight q \<and>
   (inflight q = Some (i, args) \<and> \<not> discarded q \<longrightarrow>
      settled (q_finish x (q_clear q)) = settled (q_clear q) @ [(i, args, Settled x)] \<and>
      started (q_finish x (q_clear q)) = started q \<and>
      inflight (q_finish x (q_clear q)) = None) \<and>
   Settled x \<noteq> CANCELED_SYMBOL"
  by (auto simp: q_clear_def q_finish_def Let_def case_prod_beta)

theorem queued_clear_pending_witness:
  "pending (q_call ''d'' (q_call ''c'' (q_call ''b'' (q_call ''a'' (queued :: (string, nat) queue))))) =
     [(1, ''b''), (2, ''c''), (3, ''d'')] \<and>
   inflight (q_call ''d'' (q_call ''c'' (q_call ''b'' (q_call ''a'' (queued :: (string, nat) queue))))) =
     Some (0, ''a'') \<and>
   \<not> discarded (q_call ''d'' (q_call ''c'' (q_call ''b'' (q_call ''a'' (queued :: (string, nat) queue))))) \<and>
   settled (q_clear (q_call ''d'' (q_call ''c'' (q_call ''b'' (q_call ''a'' (queued :: (string, nat) queue)))))) =
     [(1, ''b'', CANCELED_SYMBOL), (2, ''c'', CANCELED_SYMBOL), (3, ''d'', CANCELED_SYMBOL)] \<and>
   started (q_clear (q_call ''d'' (q_call ''c'' (q_call ''b'' (q_call ''a'' (queued :: (string, nat) queue)))))) = [0] \<and>
   settled (q_finish 7 (q_clear (q_call ''d'' (q_call ''c'' (q_call ''b'' (q_call ''a'' (queued :: (string, nat) queue))))))) =
     [(1, ''b'', CANCELED_SYMBOL), (2, ''c'', CANCELED_SYMBOL), (3, ''d'', CANCELED_SYMBOL),
      (0, ''a'', Settled 7)] \<and>
   started (q_finish 7 (q_clear (q_call ''d'' (q_call ''c'' (q_call ''b'' (q_call ''a'' (queued :: (string, nat) queue))))))) = [0]"
  using queued_clear_pending[where q = "q_call ''d'' (q_call ''c'' (q_call ''b'' (q_call ''a'' (queued :: (string, nat) queue))))"
      and i = 0 and args = "''a''" and x = 7]
  by (simp add: queued_def q_call_def q_idle_def q_clear_def q_finish_def Let_def)

subsection \<open>C4: first in, first out\<close>



subsection \<open>C1: endLock is a barrier when nothing is reset\<close>




subsection \<open>C8: an unmatched endLock is a barrier when nothing is reset\<close>




subsection \<open>C5: the sentinel call\<close>

text \<open>
  Claim C5. \<open>endLock()\<close> puts exactly one entry, with the sentinel as its only argument,
  into the queue that the calls of the wrapped function go through. The executor detects
  it by comparing \<open>first(args)\<close> with the sentinel and then returns \<open>null\<close> without
  invoking the user's function; in every run an entry whose first argument is the sentinel
  has no body invoked and settles with \<open>null\<close> or with the cancellation marker.
\<close>

theorem endLock_sentinel_noop:
  fixes promise :: "'a arg list \<Rightarrow> 'r" and s :: "('a, 'r) lock_state"
  shows
  "executeFn (endLock s) = q_call [NEVER_VALUE] (executeFn s) \<and>
   executeFn (wrappedFn args s) = q_call (map Arg args) (executeFn s) \<and>
   history (executeFn (endLock s)) =
     history (executeFn s) @ [(nextId (executeFn s), [NEVER_VALUE])] \<and>
   first [NEVER_VALUE :: 'a arg] = Some NEVER_VALUE \<and>
   (inflight (executeFn s) = Some (i, a) \<and> phase s = Unlocked \<and>
    first a = Some NEVER_VALUE \<longrightarrow>
      resume s = Some (finish_executeFn None s) \<and>
      bodies (finish_executeFn None s) = bodies s \<and>
      settled (executeFn (finish_executeFn None s)) =
        settled (executeFn s) @
        [(i, a, if discarded (executeFn s) then CANCELED_SYMBOL else Settled None)]) \<and>
   (run promise evs lock = Some s' \<and> (j, a', r) \<in> set (settled (executeFn s')) \<and>
    first a' = Some NEVER_VALUE \<longrightarrow>
      j \<notin> set (bodies s') \<and> (r = Settled None \<or> r = CANCELED_SYMBOL))"
proof -
  have h: "history (executeFn (endLock s)) =
     history (executeFn s) @ [(nextId (executeFn s), [NEVER_VALUE])]"
    by (simp add: history_call)
  have r: "resume s = Some (finish_executeFn None s) \<and>
      bodies (finish_executeFn None s) = bodies s \<and>
      settled (executeFn (finish_executeFn None s)) =
        settled (executeFn s) @
        [(i, a, if discarded (executeFn s) then CANCELED_SYMBOL else Settled None)]"
    if "inflight (executeFn s) = Some (i, a) \<and> phase s = Unlocked \<and>
        first a = Some NEVER_VALUE"
    using that by (auto simp: resume_def q_finish_def Let_def split: list.splits)
  have t: "j \<notin> set (bodies s') \<and> (r = Settled None \<or> r = CANCELED_SYMBOL)"
    if "run promise evs lock = Some s' \<and> (j, a', r) \<in> set (settled (executeFn s')) \<and>
        first a' = Some NEVER_VALUE"
  proof -
    have "sentinel_inv s'"
      using sentinel_inv_run[OF sentinel_inv_lock fifo_inv_lock] that by blast
    then show ?thesis using that unfolding sentinel_inv_def by blast
  qed
  from h r t show ?thesis by (simp add: first_def)
qed

theorem endLock_sentinel_noop_witness:
  "inflight (executeFn (\<lparr>lockCount = 0, lockSubject = \<lparr>ident = 0, data = 0, listeners = []\<rparr>,
        emissions = [],
        executeFn = \<lparr>nextId = 2, pending = [], inflight = Some (1, [NEVER_VALUE]),
          discarded = False, started = [0, 1],
          settled = [(0, [Arg 7], Settled (Some 107))]\<rparr>,
        phase = Unlocked, bodies = [0]\<rparr> :: (nat, nat) lock_state)) = Some (1, [NEVER_VALUE]) \<and>
   phase (\<lparr>lockCount = 0, lockSubject = \<lparr>ident = 0, data = 0, listeners = []\<rparr>,
        emissions = [],
        executeFn = \<lparr>nextId = 2, pending = [], inflight = Some (1, [NEVER_VALUE]),
          discarded = False, started = [0, 1],
          settled = [(0, [Arg 7], Settled (Some 107))]\<rparr>,
        phase = Unlocked, bodies = [0]\<rparr> :: (nat, nat) lock_state) = Unlocked \<and>
   first [NEVER_VALUE :: nat arg] = Some NEVER_VALUE \<and>
   resume (\<lparr>lockCount = 0, lockSubject = \<lparr>ident = 0, data = 0, listeners = []\<rparr>,
        emissions = [],
        executeFn = \<lparr>nextId = 2, pending = [], inflight = Some (1, [NEVER_VALUE]),
          discarded = False, started = [0, 1],
          settled = [(0, [Arg 7], Settled (Some 107))]\<rparr>,
        phase = Unlocked, bodies = [0]\<rparr> :: (nat, nat) lock_state) =
     Some (\<lparr>lockCount = 0, lockSubject = \<lparr>ident = 0, data = 0, listeners = []\<rparr>,
        emissions = [],
        executeFn = \<lparr>nextId = 2, pending = [], inflight = None,
          discarded = False, started = [0, 1],
          settled = [(0, [Arg 7], Settled (Some 107)), (1, [NEVER_VALUE], Settled None)]\<rparr>,
        phase = Unlocked, bodies = [0]\<rparr> :: (nat, nat) lock_state) \<and>
   run answer [Call [7], EndLock, Resume, Settle, Resume] lock =
     Some (\<lparr>lockCount = 0, lockSubject = \<lparr>ident = 0, data = 0, listeners = []\<rparr>,
        emissions = [],
        executeFn = \<lparr>nextId = 2, pending = [], inflight = None,
          discarded = False, started = [0, 1],
          settled = [(0, [Arg 7], Settled (Some 107)), (1, [NEVER_VALUE], Settled None)]\<rparr>,
        phase = Unlocked, bodies = [0]\<rparr> :: (nat, nat) lock_state) \<and>
   history (executeFn (endLock (\<lparr>lockCount = 0, lockSubject = \<lparr>ident = 0, data = 0, listeners = []\<rparr>,
        emissions = [],
        executeFn = \<lparr>nextId = 2, pending = [], inflight = Some (1, [NEVER_VALUE]),
          discarded = False, started = [0, 1],
          settled = [(0, [Arg 7], Settled (Some 107))]\<rparr>,
        phase = Unlocked, bodies = [0]\<rparr> :: (nat, nat) lock_state))) =
     [(0, [Arg 7]), (1, [NEVER_VALUE]), (2, [NEVER_VALUE])]"
  using endLock_sentinel_noop[where promise = answer
      and s = "(\<lparr>lockCount = 0, lockSubject = \<lparr>ident = 0, data = 0, listeners = []\<rparr>,
        emissions = [],
        executeFn = \<lparr>nextId = 2, pending = [], inflight = Some (1, [NEVER_VALUE]),
          discarded = False, started = [0, 1],
          settled = [(0, [Arg 7], Settled (Some 107))]\<rparr>,
        phase = Unlocked, bodies = [0]\<rparr> :: (nat, nat) lock_state)"
      and args = "[7]" and i = 1 and a = "[NEVER_VALUE]"
      and evs = "[Call [7], EndLock, Resume, Settle, Resume]"
      and s' = "(\<lparr>lockCount = 0, lockSubject = \<lparr>ident = 0, data = 0, listeners = []\<rparr>,
        emissions = [],
        executeFn = \<lparr>nextId = 2, pending = [], inflight = None,
          discarded = False, started = [0, 1],
          settled = [(0, [Arg 7], Settled (Some 107)), (1, [NEVER_VALUE], Settled None)]\<rparr>,
        phase = Unlocked, bodies = [0]\<rparr> :: (nat, nat) lock_state)"
      and j = 1 and a' = "[NEVER_VALUE]" and r = "Settled None"]
  by (simp add: lock_defs answer_def history_def)

subsection \<open>C10: callers cannot reach the sentinel branch\<close>

text \<open>
  Claim C10. The sentinel is private to the module, so an argument list built by a caller
  holds caller values only: its first element is never the sentinel, the executor resumed
  for such an entry invokes the user's function, and in every run without \<open>endLock()\<close>
  no entry of the queue starts with the sentinel and no entry settles with the \<open>null\<close>
  of the sentinel branch.
\<close>

theorem sentinel_unreachable:
  fixes promise :: "'a arg list \<Rightarrow> 'r" and s :: "('a, 'r) lock_state"
  shows
  "first (map Arg args) \<noteq> Some NEVER_VALUE \<and>
   (inflight (executeFn s) = Some (i, map Arg args) \<and> phase s = Unlocked \<longrightarrow>
      resume s = Some (s\<lparr>bodies := bodies s @ [i], phase := InBody\<rparr>)) \<and>
   (run promise evs lock = Some s' \<and> EndLock \<notin> set evs \<longrightarrow>
      (\<forall>e \<in> set (history (executeFn s')). first (snd e) \<noteq> Some NEVER_VALUE) \<and>
      (\<forall>e \<in> set (settled (executeFn s')). snd (snd e) \<noteq> Settled None))"
proof -
  have f: "first (map Arg args) \<noteq> Some NEVER_VALUE"
    by (cases args) (simp_all add: first_def)
  have r: "resume s = Some (s\<lparr>bodies := bodies s @ [i], phase := InBody\<rparr>)"
    if "inflight (executeFn s) = Some (i, map Arg args) \<and> phase s = Unlocked"
    using that f by (simp add: resume_def)
  have t: "(\<forall>e \<in> set (history (executeFn s')). first (snd e) \<noteq> Some NEVER_VALUE) \<and>
      (\<forall>e \<in> set (settled (executeFn s')). snd (snd e) \<noteq> Settled None)"
    if "run promise evs lock = Some s' \<and> EndLock \<notin> set evs"
  proof -
    have "caller_inv s'" using caller_inv_run[OF caller_inv_lock] that by blast
    then show ?thesis by (auto simp: caller_inv_def dest: first_in_set)
  qed
  from f r t show ?thesis by blast
qed

theorem sentinel_unreachable_witness:
  "resume (\<lparr>lockCount = 0, lockSubject = \<lparr>ident = 0, data = 0, listeners = []\<rparr>,
        emissions = [],
        executeFn = \<lparr>nextId = 1, pending = [], inflight = Some (0, [Arg 7]),
          discarded = False, started = [0],
          settled = []\<rparr>,
        phase = Unlocked, bodies = []\<rparr> :: (nat, nat) lock_state) =
     Some (\<lparr>lockCount = 0, lockSubject = \<lparr>ident = 0, data = 0, listeners = []\<rparr>,
        emissions = [],
        executeFn = \<lparr>nextId = 1, pending = [], inflight = Some (0, [Arg 7]),
          discarded = False, started = [0],
          settled = []\<rparr>,
        phase = InBody, bodies = [0]\<rparr> :: (nat, nat) lock_state) \<and>
   run answer [Call [7], Call [8], Resume, Settle, Resume, Settle] lock =
     Some (\<lparr>lockCount = 0, lockSubject = \<lparr>ident = 0, data = 0, listeners = []\<rparr>,
        emissions = [],
        executeFn = \<lparr>nextId = 2, pending = [], inflight = None,
          discarded = False, started = [0, 1],
          settled = [(0, [Arg 7], Settled (Some 107)), (1, [Arg 8], Settled (Some 108))]\<rparr>,
        phase = InBody, bodies = [0, 1]\<rparr> :: (nat, nat) lock_state) \<and>
   EndLock \<notin> set [Call [7 :: nat], Call [8], Resume, Settle, Resume, Settle] \<and>
   history (executeFn (\<lparr>lockCount = 0, lockSubject = \<lparr>ident = 0, data = 0, listeners = []\<rparr>,
        emissions = [],
        executeFn = \<lparr>nextId = 2, pending = [], inflight = None,
          discarded = False, started = [0, 1],
          settled = [(0, [Arg 7], Settled (Some 107)), (1, [Arg 8], Settled (Some 108))]\<rparr>,
        phase = InBody, bodies = [0, 1]\<rparr> :: (nat, nat) lock_state)) =
     [(0, [Arg 7]), (1, [Arg 8])]"
  using sentinel_unreachable[where promise = answer
      and args = "[7]" and i = 0
      and s = "(\<lparr>lockCount = 0, lockSubject = \<lparr>ident = 0, data = 0, listeners = []\<rparr>,
        emissions = [],
        executeFn = \<lparr>nextId = 1, pending = [], inflight = Some (0, [Arg 7]),
          discarded = False, started = [0],
          settled = []\<rparr>,
        phase = Unlocked, bodies = []\<rparr> :: (nat, nat) lock_state)"
      and evs = "[Call [7], Call [8], Resume, Settle, Resume, Settle]"
      and s' = "(\<lparr>lockCount = 0, lockSubject = \<lparr>ident = 0, data = 0, listeners = []\<rparr>,
        emissions = [],
        executeFn = \<lparr>nextId = 2, pending = [], inflight = None,
          discarded = False, started = [0, 1],
          settled = [(0, [Arg 7], Settled (Some 107)), (1, [Arg 8], Settled (Some 108))]\<rparr>,
        phase = InBody, bodies = [0, 1]\<rparr> :: (nat, nat) lock_state)"]
  by (simp add: lock_defs answer_def history_def)

subsection \<open>C2: the body runs after the unlock wait has seen depth 0\<close>

text \<open>
  Claim C2, as amended. The body of a call is invoked only after the unlock wait of that
  call has seen depth 0: whenever the body of call \<open>i\<close> has been invoked in a run, there
  is an earlier moment of the run at which the depth was 0 and call \<open>i\<close> was in flight
  with its wait resolved. While the depth is greater than 0, a call that is waiting stays
  suspended: it cannot be resumed, and every notification leaves it waiting, with no body
  run, and subscribed again when the notification was its own.
\<close>

theorem body_runs_after_unlock_observed:
  fixes promise :: "'a arg list \<Rightarrow> 'r"
  shows
  "(run promise evs lock = Some s \<and> i \<in> set (bodies s) \<longrightarrow>
      (\<exists>n s1 a. n \<le> length evs \<and> run promise (take n evs) lock = Some s1 \<and>
         lockCount s1 = 0 \<and> inflight (executeFn s1) = Some (i, a) \<and> phase s1 = Unlocked \<and>
         i \<notin> set (bodies s1))) \<and>
   (run promise evs' lock = Some t \<and> 0 < lockCount t \<and>
    inflight (executeFn t) = Some (j, a') \<and> phase t = Waiting \<longrightarrow>
      resume t = None \<and> settle promise t = None \<and>
      (notify k t = Some t' \<longrightarrow>
         phase t' = Waiting \<and> bodies t' = bodies t \<and>
         inflight (executeFn t') = Some (j, a') \<and>
         (first (snd (emissions t ! k)) = Some j \<longrightarrow> j \<in> set (listeners (lockSubject t')))))"
proof -
  have A: "\<exists>n s1 a. n \<le> length evs \<and> run promise (take n evs) lock = Some s1 \<and>
         lockCount s1 = 0 \<and> inflight (executeFn s1) = Some (i, a) \<and> phase s1 = Unlocked \<and>
         i \<notin> set (bodies s1)"
    if h: "run promise evs lock = Some s \<and> i \<in> set (bodies s)"
  proof -
    have "unlock_seen promise evs i" using unlock_seen_run[of promise evs s] h by blast
    then obtain n s1 a where n: "n \<le> length evs" "run promise (take n evs) lock = Some s1"
        "lockCount s1 = 0" "inflight (executeFn s1) = Some (i, a)" "phase s1 = Unlocked"
      unfolding unlock_seen_def by blast
    have "fifo_inv s1" using fifo_inv_run[OF fifo_inv_lock n(2)] .
    then have "\<forall>b \<in> set (bodies s1). b < i"
      using n(4,5) by (fastforce simp: fifo_inv_def)
    then have "i \<notin> set (bodies s1)" by auto
    with n show ?thesis by blast
  qed
  have B: "resume t = None \<and> settle promise t = None \<and>
      (notify k t = Some t' \<longrightarrow>
         phase t' = Waiting \<and> bodies t' = bodies t \<and>
         inflight (executeFn t') = Some (j, a') \<and>
         (first (snd (emissions t ! k)) = Some j \<longrightarrow> j \<in> set (listeners (lockSubject t'))))"
    if h: "run promise evs' lock = Some t \<and> 0 < lockCount t \<and>
       inflight (executeFn t) = Some (j, a') \<and> phase t = Waiting"
  proof -
    have "count_inv t" using count_inv_run[OF count_inv_lock] h by blast
    then have d: "data (lockSubject t) \<noteq> 0" using h by (simp add: count_inv_def)
    have "resume t = None" "settle promise t = None"
      using h by (simp_all add: resume_def settle_def)
    moreover have "phase t' = Waiting \<and> bodies t' = bodies t \<and>
         inflight (executeFn t') = Some (j, a') \<and>
         (first (snd (emissions t ! k)) = Some j \<longrightarrow> j \<in> set (listeners (lockSubject t')))"
      if "notify k t = Some t'"
      using that h d
      by (auto simp: notify_def handler_def once_def Let_def first_def
            split: if_splits prod.splits list.splits)
    ultimately show ?thesis by blast
  qed
  from A B show ?thesis by blast
qed

theorem body_runs_after_unlock_observed_witness:
  "run answer [BeginLock, Call [42], EndLock, Notify 0, BeginLock, Resume] lock =
     Some \<lparr>lockCount = 1, lockSubject = \<lparr>ident = 0, data = 1, listeners = []\<rparr>, emissions = [],
        executeFn = \<lparr>nextId = 2, pending = [(1, [NEVER_VALUE])], inflight = Some (0, [Arg 42]),
          discarded = False, started = [0], settled = []\<rparr>,
        phase = InBody, bodies = [0]\<rparr> \<and>
   (\<exists>n s1 a. n \<le> length [BeginLock, Call [42 :: nat], EndLock, Notify 0, BeginLock, Resume] \<and>
      run answer (take n [BeginLock, Call [42], EndLock, Notify 0, BeginLock, Resume]) lock = Some s1 \<and>
      lockCount s1 = 0 \<and> inflight (executeFn s1) = Some (0, a) \<and> phase s1 = Unlocked \<and>
      0 \<notin> set (bodies s1)) \<and>
   run answer [BeginLock, Call [42], BeginLock] lock =
     Some \<lparr>lockCount = 2, lockSubject = \<lparr>ident = 0, data = 2, listeners = [0]\<rparr>,
        emissions = [(0, [0])],
        executeFn = \<lparr>nextId = 1, pending = [], inflight = Some (0, [Arg 42]),
          discarded = False, started = [0], settled = []\<rparr>,
        phase = Waiting, bodies = []\<rparr> \<and>
   notify 0 \<lparr>lockCount = 2, lockSubject = \<lparr>ident = 0, data = 2, listeners = [0]\<rparr>,
        emissions = [(0, [0])],
        executeFn = \<lparr>nextId = 1, pending = [], inflight = Some (0, [Arg 42 :: nat arg]),
          discarded = False, started = [0], settled = []\<rparr>,
        phase = Waiting, bodies = []\<rparr> =
     Some (\<lparr>lockCount = 2, lockSubject = \<lparr>ident = 0, data = 2, listeners = [0]\<rparr>,
        emissions = [],
        executeFn = \<lparr>nextId = 1, pending = [], inflight = Some (0, [Arg 42]),
          discarded = False, started = [0], settled = []\<rparr>,
        phase = Waiting, bodies = []\<rparr> :: (nat, nat) lock_state)"
  using body_runs_after_unlock_observed[where promise = answer
      and evs = "[BeginLock, Call [42], EndLock, Notify 0, BeginLock, Resume]"
      and s = "\<lparr>lockCount = 1, lockSubject = \<lparr>ident = 0, data = 1, listeners = []\<rparr>, emissions = [],
        executeFn = \<lparr>nextId = 2, pending = [(1, [NEVER_VALUE])], inflight = Some (0, [Arg 42]),
          discarded = False, started = [0], settled = []\<rparr>,
        phase = InBody, bodies = [0]\<rparr>"
      and i = 0
      and evs' = "[BeginLock, Call [42], BeginLock]"
      and t = "\<lparr>lockCount = 2, lockSubject = \<lparr>ident = 0, data = 2, listeners = [0]\<rparr>,
        emissions = [(0, [0])],
        executeFn = \<lparr>nextId = 1, pending = [], inflight = Some (0, [Arg 42]),
          discarded = False, started = [0], settled = []\<rparr>,
        phase = Waiting, bodies = []\<rparr>"
      and j = 0 and a' = "[Arg 42]" and k = 0
      and t' = "\<lparr>lockCount = 2, lockSubject = \<lparr>ident = 0, data = 2, listeners = [0]\<rparr>,
        emissions = [],
        executeFn = \<lparr>nextId = 1, pending = [], inflight = Some (0, [Arg 42]),
          discarded = False, started = [0], settled = []\<rparr>,
        phase = Waiting, bodies = []\<rparr>"]
  by (simp add: lock_defs answer_def)

text \<open>
  Claim C2 as stated fails: the wait only sees the depth at the moment of its check. After
  \<open>beginLock(); wrappedFn(42); endLock()\<close> the notification resolves the wait at depth 0;
  a \<open>beginLock()\<close> issued before the executor is resumed raises the depth to 1, and the
  resumed executor invokes the body all the same (lock.ts lines 56-60 do not read the
  depth again).
\<close>

theorem body_runs_while_locked:
  "run answer [BeginLock, Call [42], EndLock, Notify 0, BeginLock] lock =
     Some \<lparr>lockCount = 1, lockSubject = \<lparr>ident = 0, data = 1, listeners = []\<rparr>, emissions = [],
        executeFn = \<lparr>nextId = 2, pending = [(1, [NEVER_VALUE])], inflight = Some (0, [Arg 42]),
          discarded = False, started = [0], settled = []\<rparr>,
        phase = Unlocked, bodies = []\<rparr> \<and>
   run answer [BeginLock, Call [42], EndLock, Notify 0, BeginLock, Resume] lock =
     Some \<lparr>lockCount = 1, lockSubject = \<lparr>ident = 0, data = 1, listeners = []\<rparr>, emissions = [],
        executeFn = \<lparr>nextId = 2, pending = [(1, [NEVER_VALUE])], inflight = Some (0, [Arg 42]),
          discarded = False, started = [0], settled = []\<rparr>,
        phase = InBody, bodies = [0]\<rparr>"
  by (simp add: lock_defs answer_def)

subsection \<open>C9: an unlock wait that starts at depth 0\<close>

text \<open>
  Claim C9, as amended. When the executor of a call starts its unlock wait while the value
  of the behavior subject is 0, the wait resolves at its first check and subscribes to
  nothing: this holds for the entry that comes in flight when its predecessor finishes,
  and, in every run, for a call made while the depth counter is 0 and the queue is idle,
  whose body can then be invoked with no notification at all.
\<close>

theorem unlock_wait_immediate:
  fixes promise :: "'a arg list \<Rightarrow> 'r" and s :: "('a, 'r) lock_state"
  shows
  "(inflight (executeFn s) = Some (i, a) \<and> data (lockSubject s) = 0 \<longrightarrow>
      waitForUnlock s = s\<lparr>phase := Unlocked\<rparr>) \<and>
   (inflight (executeFn s) = Some (i, a) \<and> pending (executeFn s) \<noteq> [] \<and>
    data (lockSubject s) = 0 \<longrightarrow>
      phase (finish_executeFn x s) = Unlocked \<and>
      lockSubject (finish_executeFn x s) = lockSubject s \<and>
      emissions (finish_executeFn x s) = emissions s) \<and>
   (run promise evs lock = Some s' \<and> lockCount s' = 0 \<and> q_idle (executeFn s') \<longrightarrow>
      wrappedFn args s' =
        s'\<lparr>executeFn := q_call (map Arg args) (executeFn s'), phase := Unlocked\<rparr> \<and>
      resume (wrappedFn args s') =
        Some ((wrappedFn args s')\<lparr>bodies := bodies s' @ [nextId (executeFn s')],
                                   phase := InBody\<rparr>))"
proof -
  have w: "waitForUnlock s = s\<lparr>phase := Unlocked\<rparr>"
    if "inflight (executeFn s) = Some (i, a) \<and> data (lockSubject s) = 0" for s :: "('a, 'r) lock_state" and i a
    using that by (simp add: waitForUnlock_def handler_def resolve_def)
  have f: "phase (finish_executeFn x s) = Unlocked \<and>
      lockSubject (finish_executeFn x s) = lockSubject s \<and>
      emissions (finish_executeFn x s) = emissions s"
    if h: "inflight (executeFn s) = Some (i, a) \<and> pending (executeFn s) \<noteq> [] \<and>
        data (lockSubject s) = 0"
  proof -
    obtain e es where p: "pending (executeFn s) = e # es" using h by (cases "pending (executeFn s)") auto
    let ?s1 = "s\<lparr>executeFn := q_finish x (executeFn s)\<rparr>"
    have fl: "inflight (executeFn ?s1) = Some (fst e, snd e)"
      using q_finish_next[of "executeFn s" i a e es x] h p by simp
    have "finish_executeFn x s = waitForUnlock ?s1" using p by (simp add: finish_executeFn_def Let_def)
    also have "\<dots> = ?s1\<lparr>phase := Unlocked\<rparr>" using w[of ?s1 "fst e" "snd e"] fl h by simp
    finally show ?thesis by simp
  qed
  have c: "wrappedFn args s' =
        s'\<lparr>executeFn := q_call (map Arg args) (executeFn s'), phase := Unlocked\<rparr> \<and>
      resume (wrappedFn args s') =
        Some ((wrappedFn args s')\<lparr>bodies := bodies s' @ [nextId (executeFn s')],
                                   phase := InBody\<rparr>)"
    if h: "run promise evs lock = Some s' \<and> lockCount s' = 0 \<and> q_idle (executeFn s')"
  proof -
    have "count_inv s'" using count_inv_run[OF count_inv_lock] h by blast
    then have d: "data (lockSubject s') = 0" using h by (simp add: count_inv_def)
    let ?s1 = "s'\<lparr>executeFn := q_call (map Arg args) (executeFn s')\<rparr>"
    have fl: "inflight (executeFn ?s1) = Some (nextId (executeFn s'), map Arg args)"
      using h by (simp add: q_call_def Let_def)
    have "wrappedFn args s' = waitForUnlock ?s1"
      using h by (simp add: wrappedFn_def call_executeFn_def Let_def)
    also have "\<dots> = ?s1\<lparr>phase := Unlocked\<rparr>"
      using w[of ?s1 "nextId (executeFn s')" "map Arg args"] fl d by simp
    finally have eq: "wrappedFn args s' =
        s'\<lparr>executeFn := q_call (map Arg args) (executeFn s'), phase := Unlocked\<rparr>" by simp
    have nf: "first (map Arg args) \<noteq> Some NEVER_VALUE"
      by (cases args) (simp_all add: first_def)
    have "resume (wrappedFn args s') =
        Some ((wrappedFn args s')\<lparr>bodies := bodies s' @ [nextId (executeFn s')], phase := InBody\<rparr>)"
      unfolding eq using fl nf by (simp add: resume_def)
    with eq show ?thesis by blast
  qed
  from w[of s i a] f c show ?thesis by blast
qed

theorem unlock_wait_immediate_witness:
  "finish_executeFn (Some 107)
     (\<lparr>lockCount = 0, lockSubject = \<lparr>ident = 0, data = 0, listeners = []\<rparr>,
        emissions = [],
        executeFn = \<lparr>nextId = 2, pending = [(1, [Arg 8])], inflight = Some (0, [Arg 7]),
          discarded = False, started = [0],
          settled = []\<rparr>,
        phase = InBody, bodies = [0]\<rparr> :: (nat, nat) lock_state) =
     (\<lparr>lockCount = 0, lockSubject = \<lparr>ident = 0, data = 0, listeners = []\<rparr>,
        emissions = [],
        executeFn = \<lparr>nextId = 2, pending = [], inflight = Some (1, [Arg 8]),
          discarded = False, started = [0, 1],
          settled = [(0, [Arg 7], Settled (Some 107))]\<rparr>,
        phase = Unlocked, bodies = [0]\<rparr> :: (nat, nat) lock_state) \<and>
   run answer [BeginLock, EndLock, Resume] lock =
     Some (\<lparr>lockCount = 0, lockSubject = \<lparr>ident = 0, data = 0, listeners = []\<rparr>,
        emissions = [],
        executeFn = \<lparr>nextId = 1, pending = [], inflight = None,
          discarded = False, started = [0],
          settled = [(0, [NEVER_VALUE], Settled None)]\<rparr>,
        phase = Unlocked, bodies = []\<rparr> :: (nat, nat) lock_state) \<and>
   q_idle (executeFn (\<lparr>lockCount = 0, lockSubject = \<lparr>ident = 0, data = 0, listeners = []\<rparr>,
        emissions = [],
        executeFn = \<lparr>nextId = 1, pending = [], inflight = None,
          discarded = False, started = [0],
          settled = [(0, [NEVER_VALUE], Settled None)]\<rparr>,
        phase = Unlocked, bodies = []\<rparr> :: (nat, nat) lock_state)) \<and>
   wrappedFn [7]
     (\<lparr>lockCount = 0, lockSubject = \<lparr>ident = 0, data = 0, listeners = []\<rparr>,
        emissions = [],
        executeFn = \<lparr>nextId = 1, pending = [], inflight = None,
          discarded = False, started = [0],
          settled = [(0, [NEVER_VALUE], Settled None)]\<rparr>,
        phase = Unlocked, bodies = []\<rparr> :: (nat, nat) lock_state) =
     (\<lparr>lockCount = 0, lockSubject = \<lparr>ident = 0, data = 0, listeners = []\<rparr>,
        emissions = [],
        executeFn = \<lparr>nextId = 2, pending = [], inflight = Some (1, [Arg 7]),
          discarded = False, started = [0, 1],
          settled = [(0, [NEVER_VALUE], Settled None)]\<rparr>,
        phase = Unlocked, bodies = []\<rparr> :: (nat, nat) lock_state) \<and>
   resume (\<lparr>lockCount = 0, lockSubject = \<lparr>ident = 0, data = 0, listeners = []\<rparr>,
        emissions = [],
        executeFn = \<lparr>nextId = 2, pending = [], inflight = Some (1, [Arg 7]),
          discarded = False, started = [0, 1],
          settled = [(0, [NEVER_VALUE], Settled None)]\<rparr>,
        phase = Unlocked, bodies = []\<rparr> :: (nat, nat) lock_state) =
     Some (\<lparr>lockCount = 0, lockSubject = \<lparr>ident = 0, data = 0, listeners = []\<rparr>,
        emissions = [],
        executeFn = \<lparr>nextId = 2, pending = [], inflight = Some (1, [Arg 7]),
          discarded = False, started = [0, 1],
          settled = [(0, [NEVER_VALUE], Settled None)]\<rparr>,
        phase = InBody, bodies = [1]\<rparr> :: (nat, nat) lock_state)"
  using unlock_wait_immediate[where promise = answer
      and s = "(\<lparr>lockCount = 0, lockSubject = \<lparr>ident = 0, data = 0, listeners = []\<rparr>,
        emissions = [],
        executeFn = \<lparr>nextId = 2, pending = [(1, [Arg 8])], inflight = Some (0, [Arg 7]),
          discarded = False, started = [0],
          settled = []\<rparr>,
        phase = InBody, bodies = [0]\<rparr> :: (nat, nat) lock_state)"
      and i = 0 and a = "[Arg 7]" and x = "Some 107"
      and evs = "[BeginLock, EndLock, Resume]"
      and s' = "(\<lparr>lockCount = 0, lockSubject = \<lparr>ident = 0, data = 0, listeners = []\<rparr>,
        emissions = [],
        executeFn = \<lparr>nextId = 1, pending = [], inflight = None,
          discarded = False, started = [0],
          settled = [(0, [NEVER_VALUE], Settled None)]\<rparr>,
        phase = Unlocked, bodies = []\<rparr> :: (nat, nat) lock_state)"
      and args = "[7]"]
  by (simp add: lock_defs answer_def)

text \<open>
  Claim C9 as stated fails for a call made at depth 0 behind another call: the second call
  is made while the depth is 0, a \<open>beginLock()\<close> follows, and when the first call
  settles the wait of the second one finds depth 1 and subscribes.
\<close>

theorem wait_subscribes_after_call_at_depth_zero:
  "run answer [Call [1], Resume] lock =
     Some \<lparr>lockCount = 0, lockSubject = \<lparr>ident = 0, data = 0, listeners = []\<rparr>, emissions = [],
        executeFn = \<lparr>nextId = 1, pending = [], inflight = Some (0, [Arg 1]),
          discarded = False, started = [0], settled = []\<rparr>,
        phase = InBody, bodies = [0]\<rparr> \<and>
   run answer [Call [1], Resume, Call [2], BeginLock, Settle] lock =
     Some \<lparr>lockCount = 1, lockSubject = \<lparr>ident = 0, data = 1, listeners = [1]\<rparr>, emissions = [],
        executeFn = \<lparr>nextId = 2, pending = [], inflight = Some (1, [Arg 2]),
          discarded = False, started = [0, 1], settled = [(0, [Arg 1], Settled (Some 101))]\<rparr>,
        phase = Waiting, bodies = [0]\<rparr>"
  by (simp add: lock_defs answer_def)

end
